theory Spec2Isabelle
  imports Main
begin

section \<open>Strings of the host language\<close>

text \<open>
  Source strings are modelled as \<^typ>\<open>string\<close>: one \<^typ>\<open>char\<close> per code unit, restricted to
  the code units \<open>0x00\<close> .. \<open>0xFF\<close>. Within that range the white space of \<open>\s\<close> and of
  \<open>String.prototype.trim\<close> is tab, line feed, vertical tab, form feed, carriage return, space
  and no-break space; the line terminators (the characters \<open>.\<close> does not match) are line feed
  and carriage return.
\<close>

definition is_space :: "char \<Rightarrow> bool" where
  "is_space c = (c \<in> set [CHR 0x09, CHR 0x0A, CHR 0x0B, CHR 0x0C, CHR 0x0D, CHR 0x20, CHR 0xA0])"

definition is_line_terminator :: "char \<Rightarrow> bool" where
  "is_line_terminator c = (c = CHR 0x0A \<or> c = CHR 0x0D)"

definition trim :: "string \<Rightarrow> string" where
  "trim s = rev (dropWhile is_space (rev (dropWhile is_space s)))"

text \<open>\<open>s.split('\n')\<close>: the pieces between line feeds; the empty string gives one empty piece.\<close>

function split_nl :: "string \<Rightarrow> string list" where
  "split_nl s =
     (case dropWhile (\<lambda>c. c \<noteq> CHR 0x0A) s of
        [] \<Rightarrow> [takeWhile (\<lambda>c. c \<noteq> CHR 0x0A) s]
      | _ # r \<Rightarrow> takeWhile (\<lambda>c. c \<noteq> CHR 0x0A) s # split_nl r)"
  by pat_completeness auto
termination
proof (relation "measure length")
  fix s :: string and x r
  assume "dropWhile (\<lambda>c. c \<noteq> CHR 0x0A) s = x # r"
  then have "length (x # r) \<le> length s"
    by (metis length_dropWhile_le)
  then show "(r, s) \<in> measure length" by simp
qed simp

declare split_nl.simps [simp del]

text \<open>\<open>lines.join('\n')\<close>.\<close>

fun join_nl :: "string list \<Rightarrow> string" where
  "join_nl [] = []"
| "join_nl [l] = l"
| "join_nl (l # ls) = l @ CHR 0x0A # join_nl ls"

text \<open>\<open>toLowerCase\<close> and \<open>toUpperCase\<close> on one code unit of the modelled range. Lower-casing
  stays inside the range. Upper-casing leaves \<open>0xB5\<close>, \<open>0xDF\<close> and \<open>0xFF\<close> alone here: their
  upper-case forms lie outside the range (or are two letters), and the model only ever
  upper-cases text a pattern of ASCII letters has matched.\<close>

definition to_lower_char :: "char \<Rightarrow> char" where
  "to_lower_char c =
     (let n = (of_char c :: nat)
      in if (65 \<le> n \<and> n \<le> 90) \<or> (192 \<le> n \<and> n \<le> 222 \<and> n \<noteq> 215) then char_of (n + 32) else c)"

definition to_upper_char :: "char \<Rightarrow> char" where
  "to_upper_char c =
     (let n = (of_char c :: nat)
      in if (97 \<le> n \<and> n \<le> 122) \<or> (224 \<le> n \<and> n \<le> 254 \<and> n \<noteq> 247) then char_of (n - 32) else c)"

definition toLowerCase :: "string \<Rightarrow> string" where
  "toLowerCase s = map to_lower_char s"

definition toUpperCase :: "string \<Rightarrow> string" where
  "toUpperCase s = map to_upper_char s"

subsection \<open>Patterns of fixed length\<close>

text \<open>
  The regular expressions for identifiers are sequences of single-character classes with
  no alternation and no repetition of variable length, so a pattern is a list of character
  predicates. \<open>match_pattern ps s\<close> matches \<open>ps\<close> against a prefix of \<open>s\<close> and returns what
  follows the match.
\<close>

fun match_pattern :: "(char \<Rightarrow> bool) list \<Rightarrow> string \<Rightarrow> string option" where
  "match_pattern [] s = Some s"
| "match_pattern (p # ps) [] = None"
| "match_pattern (p # ps) (c # cs) = (if p c then match_pattern ps cs else None)"

text \<open>The class \<open>[0-9a-f]\<close>, and the same class under the flag \<open>i\<close>.\<close>

definition hex_lower :: "char \<Rightarrow> bool" where
  "hex_lower c = (c \<in> set ''0123456789abcdef'')"

definition hex_i :: "char \<Rightarrow> bool" where
  "hex_i c = (c \<in> set ''0123456789abcdefABCDEF'')"

definition uuid_pattern :: "(char \<Rightarrow> bool) \<Rightarrow> (char \<Rightarrow> bool) list" where
  "uuid_pattern hex =
     replicate 8 hex @ [(=) CHR ''-''] @ replicate 4 hex @ [(=) CHR ''-''] @
     replicate 4 hex @ [(=) CHR ''-''] @ replicate 4 hex @ [(=) CHR ''-''] @ replicate 12 hex"

text \<open>\<open>/^[0-9a-f]{8}-[0-9a-f]{4}-[0-9a-f]{4}-[0-9a-f]{4}-[0-9a-f]{12}$/i\<close>, as \<open>UUID_REGEX.test\<close>
  and \<open>isValidBlockUuid\<close> use it: the whole string is one identifier, in either case.\<close>

definition UUID_REGEX_test :: "string \<Rightarrow> bool" where
  "UUID_REGEX_test s = (match_pattern (uuid_pattern hex_i) s = Some [])"

definition isValidBlockUuid :: "string \<Rightarrow> bool" where
  "isValidBlockUuid u = UUID_REGEX_test u"

text \<open>The 36-character lower-case identifier format of the data model.\<close>

definition is_lowercase_uuid :: "string \<Rightarrow> bool" where
  "is_lowercase_uuid s = (match_pattern (uuid_pattern hex_lower) s = Some [])"

section \<open>The block model\<close>

text \<open>
  A property value is a string, a number or a boolean. A number is kept as the numeric
  literal it was read from; how the host prints the number that literal denotes is a
  parameter of the functions that print it.
\<close>

datatype prop_value = PString string | PNumber string | PBoolean bool

type_synonym props = "(string \<times> prop_value) list"

datatype LogseqBlock =
  Block (uuid: string) (content: string) (level: nat) (properties: props)
    (children: "LogseqBlock list") (parentUuid: "string option") (sourcePath: string)
    (marker: "string option") (priority: "char option")

section \<open>Block references\<close>

text \<open>\<open>BLOCK_REF_REGEX\<close>: two opening parentheses, an identifier in either case (the one
  capture group), two closing parentheses. A match is 40 characters long.\<close>

definition BLOCK_REF_REGEX :: "(char \<Rightarrow> bool) list" where
  "BLOCK_REF_REGEX =
     [(=) CHR ''('', (=) CHR ''(''] @ uuid_pattern hex_i @ [(=) CHR '')'', (=) CHR '')'']"

definition matches_here :: "(char \<Rightarrow> bool) list \<Rightarrow> string \<Rightarrow> bool" where
  "matches_here ps s = (match_pattern ps s \<noteq> None)"

text \<open>The offset of the leftmost match in \<open>s\<close>.\<close>

fun find_match :: "(char \<Rightarrow> bool) list \<Rightarrow> string \<Rightarrow> nat option" where
  "find_match ps [] = (if matches_here ps [] then Some 0 else None)"
| "find_match ps (c # cs) =
     (if matches_here ps (c # cs) then Some 0 else map_option Suc (find_match ps cs))"

text \<open>
  \<open>exec\<close> of a regular expression with the flag \<open>g\<close>: the search starts at \<open>lastIndex\<close>; a
  match sets \<open>lastIndex\<close> to its end, a failure resets it to 0. The result is the start of
  the match and the new \<open>lastIndex\<close>.
\<close>

definition regexp_exec :: "(char \<Rightarrow> bool) list \<Rightarrow> string \<Rightarrow> nat \<Rightarrow> nat option \<times> nat" where
  "regexp_exec ps s lastIndex =
     (if lastIndex > length s then (None, 0)
      else case find_match ps (drop lastIndex s) of
             None \<Rightarrow> (None, 0)
           | Some k \<Rightarrow> (Some (lastIndex + k), lastIndex + k + length ps))"

text \<open>The capture group of a match of \<open>BLOCK_REF_REGEX\<close> that starts at \<open>i\<close>.\<close>

definition ref_group :: "string \<Rightarrow> nat \<Rightarrow> string" where
  "ref_group s i = take 36 (drop (i + 2) s)"

text \<open>\<open>[...new Set(uuids)]\<close>: the first occurrence of each element, in order.\<close>

fun dedup :: "'a list \<Rightarrow> 'a list \<Rightarrow> 'a list" where
  "dedup seen [] = []"
| "dedup seen (x # xs) = (if x \<in> set seen then dedup seen xs else x # dedup (x # seen) xs)"

lemma match_pattern_length: "match_pattern ps s = Some r \<Longrightarrow> length s = length ps + length r"
  by (induction ps s rule: match_pattern.induct) (auto split: if_splits)

lemma find_match_bound:
  "find_match ps s = Some k \<Longrightarrow> k + length ps \<le> length s"
proof (induction s arbitrary: k)
  case Nil
  then show ?case
    by (auto simp: matches_here_def split: if_splits dest: match_pattern_length)
next
  case (Cons c cs)
  show ?case
  proof (cases "matches_here ps (c # cs)")
    case True
    then show ?thesis using Cons.prems
      by (auto simp: matches_here_def dest: match_pattern_length)
  next
    case False
    then show ?thesis using Cons by auto
  qed
qed

lemma regexp_exec_advances:
  assumes "regexp_exec ps s lastIndex = (Some i, lastIndex')" and "ps \<noteq> []"
  shows "lastIndex < lastIndex' \<and> lastIndex' \<le> length s"
proof -
  from assms(1) obtain k where k: "find_match ps (drop lastIndex s) = Some k"
    and le: "lastIndex \<le> length s" and eq: "lastIndex' = lastIndex + k + length ps"
    by (auto simp: regexp_exec_def split: if_splits option.splits)
  from find_match_bound [OF k] le have "lastIndex + k + length ps \<le> length s" by simp
  with eq assms(2) show ?thesis
    by (cases ps) simp_all
qed

lemma BLOCK_REF_REGEX_length: "length BLOCK_REF_REGEX = 40"
  by (simp add: BLOCK_REF_REGEX_def uuid_pattern_def)

text \<open>The loop of \<open>extractBlockRefs\<close>: \<open>exec\<close> on a fresh expression until it fails, pushing
  the lower-cased capture group of each match.\<close>

function extract_loop :: "string \<Rightarrow> nat \<Rightarrow> string list \<Rightarrow> string list" where
  "extract_loop s lastIndex uuids =
     (case regexp_exec BLOCK_REF_REGEX s lastIndex of
        (None, _) \<Rightarrow> uuids
      | (Some i, lastIndex') \<Rightarrow> extract_loop s lastIndex' (uuids @ [toLowerCase (ref_group s i)]))"
  by pat_completeness auto
termination
  apply (relation "measure (\<lambda>(s, lastIndex, uuids). Suc (length s) - lastIndex)")
   apply simp
  apply (auto dest!: sym [of "(_, _)"] regexp_exec_advances simp: BLOCK_REF_REGEX_def)
  done

declare extract_loop.simps [simp del]

definition extractBlockRefs :: "string \<Rightarrow> string list" where
  "extractBlockRefs content' = dedup [] (extract_loop content' 0 [])"

text \<open>
  \<open>hasBlockRef\<close> calls \<open>test\<close> on the module-level \<open>BLOCK_REF_REGEX\<close>, which carries the flag
  \<open>g\<close>: the call reads and writes the expression's \<open>lastIndex\<close>. The state is passed
  explicitly; a freshly loaded module has \<open>lastIndex = 0\<close>.
\<close>

definition hasBlockRef :: "string \<Rightarrow> nat \<Rightarrow> bool \<times> nat" where
  "hasBlockRef content' lastIndex =
     (case regexp_exec BLOCK_REF_REGEX content' lastIndex of (m, lastIndex') \<Rightarrow> (m \<noteq> None, lastIndex'))"

text \<open>
  \<open>s.replace(re, f)\<close> for an expression with the flag \<open>g\<close>: \<open>lastIndex\<close> starts at 0, every
  match found by successive \<open>exec\<close> calls is replaced, the text between matches is kept.
  The replacer \<open>f\<close> receives the matched text, its offset and the whole string. After an
  empty match the search resumes one character further on.
\<close>

function replace_all ::
  "(char \<Rightarrow> bool) list \<Rightarrow> (string \<Rightarrow> nat \<Rightarrow> string \<Rightarrow> string) \<Rightarrow> string \<Rightarrow> nat \<Rightarrow> string" where
  "replace_all ps f s pos =
     (case regexp_exec ps s pos of
        (None, _) \<Rightarrow> drop pos s
      | (Some i, _) \<Rightarrow>
          take (i - pos) (drop pos s) @ f (take (length ps) (drop i s)) i s @
          (if ps = [] then take 1 (drop i s) else []) @
          replace_all ps f s (i + max 1 (length ps)))"
  by pat_completeness auto
termination
  apply (relation "measure (\<lambda>(ps, f, s, pos). Suc (length s) - pos)")
   apply simp
  apply (auto simp: regexp_exec_def split: if_splits option.splits dest: find_match_bound)
  done

declare replace_all.simps [simp del]

text \<open>\<open>resolveBlockRefs\<close>: the replacer is a function of the capture group, so its result is
  inserted as it is.\<close>

definition resolveBlockRefs :: "string \<Rightarrow> (string \<Rightarrow> LogseqBlock option) \<Rightarrow> string" where
  "resolveBlockRefs content' resolveUuid =
     replace_all BLOCK_REF_REGEX
       (\<lambda>m i s. let uuid' = take 36 (drop 2 m)
                in case resolveUuid uuid' of
                     Some block \<Rightarrow> content block
                   | None \<Rightarrow> ''(('' @ uuid' @ ''))'')
       content' 0"

text \<open>
  A replacement given as a string is a template: \<open>$$\<close> stands for a dollar sign, \<open>$&\<close> for
  the matched text, \<open>$`\<close> for the text before the match and \<open>$'\<close> for the text after it.
  The expressions built by \<open>resolveBlockRefsAsync\<close> have no capture group, so \<open>$1\<close> and
  the like stand for themselves.
\<close>

fun get_substitution :: "string \<Rightarrow> string \<Rightarrow> string \<Rightarrow> string \<Rightarrow> string" where
  "get_substitution [] m pre post = []"
| "get_substitution [c] m pre post = [c]"
| "get_substitution (c # d # r) m pre post =
     (if c = CHR ''$'' \<and> d = CHR ''$'' then CHR ''$'' # get_substitution r m pre post
      else if c = CHR ''$'' \<and> d = CHR ''&'' then m @ get_substitution r m pre post
      else if c = CHR ''$'' \<and> d = CHR 0x60 then pre @ get_substitution r m pre post
      else if c = CHR ''$'' \<and> d = CHR 0x27 then post @ get_substitution r m pre post
      else c # get_substitution (d # r) m pre post)"

text \<open>
  The expression \<open>new RegExp('\\(\\(' + escaped + '\\)\\)', 'gi')\<close>. The identifiers come from
  \<open>extractBlockRefs\<close>, so they consist of hexadecimal digits and dashes, which the escaping
  leaves alone: the expression matches the text \<open>((uuid))\<close> literally, comparing characters
  by their upper-case forms.
\<close>

definition literal_ci :: "string \<Rightarrow> (char \<Rightarrow> bool) list" where
  "literal_ci t = map (\<lambda>p c. to_upper_char c = to_upper_char p) t"

definition resolveBlockRefsAsync :: "string \<Rightarrow> (string \<Rightarrow> LogseqBlock option) \<Rightarrow> string" where
  "resolveBlockRefsAsync content' resolveUuid =
     foldl (\<lambda>result uuid'.
              let block = resolveUuid uuid';
                  ref = literal_ci (''(('' @ uuid' @ ''))'');
                  replacement = (case block of Some b \<Rightarrow> content b | None \<Rightarrow> ''(('' @ uuid' @ ''))'')
              in replace_all ref
                   (\<lambda>m i s. get_substitution replacement m (take i s) (drop (i + length m) s))
                   result 0)
       content' (extractBlockRefs content')"

definition createBlockRef :: "string \<Rightarrow> string" where
  "createBlockRef uuid' = ''(('' @ uuid' @ ''))''"

section \<open>The outline parser\<close>

subsection \<open>Line patterns\<close>

definition has_line_terminator :: "string \<Rightarrow> bool" where
  "has_line_terminator s = (\<exists>c\<in>set s. is_line_terminator c)"

definition leading_tabs :: "string \<Rightarrow> nat" where
  "leading_tabs s = length (takeWhile (\<lambda>c. c = CHR 0x09) s)"

text \<open>
  \<open>line.match(/^(\t*)-\s+(.*)$/)\<close>: the leading tabs, a dash, at least one white-space
  character and then the rest of the line, which may hold no line terminator. The result
  is the number of tabs and the text after the longest run of white space.
\<close>

definition match_block_start :: "string \<Rightarrow> (nat \<times> string) option" where
  "match_block_start line =
     (case dropWhile (\<lambda>c. c = CHR 0x09) line of
        [] \<Rightarrow> None
      | c # r \<Rightarrow>
          (case r of
             [] \<Rightarrow> None
           | d # _ \<Rightarrow>
               if c = CHR ''-'' \<and> is_space d \<and> \<not> has_line_terminator (dropWhile is_space r)
               then Some (leading_tabs line, dropWhile is_space r)
               else None))"

definition is_key_char :: "char \<Rightarrow> bool" where
  "is_key_char c =
     (c \<in> set ''abcdefghijklmnopqrstuvwxyzABCDEFGHIJKLMNOPQRSTUVWXYZ0123456789_-'')"

text \<open>\<open>PROPERTY_REGEX = /^([a-zA-Z0-9_-]+)::\s*(.*)$/\<close>: the key and the value.\<close>

definition PROPERTY_REGEX_match :: "string \<Rightarrow> (string \<times> string) option" where
  "PROPERTY_REGEX_match t =
     (let key = takeWhile is_key_char t;
          after_key = dropWhile is_key_char t;
          value = dropWhile is_space (drop 2 after_key)
      in if key \<noteq> [] \<and> take 2 after_key = ''::'' \<and> \<not> has_line_terminator value
         then Some (key, value) else None)"

definition is_digit :: "char \<Rightarrow> bool" where
  "is_digit c = (c \<in> set ''0123456789'')"

text \<open>\<open>/^-?\d+(\.\d+)?$/\<close>.\<close>

definition is_number_literal :: "string \<Rightarrow> bool" where
  "is_number_literal t =
     (let u = (case t of [] \<Rightarrow> [] | c # r \<Rightarrow> if c = CHR ''-'' then r else t);
          int_part = takeWhile is_digit u;
          rest = dropWhile is_digit u
      in int_part \<noteq> [] \<and>
         (case rest of
            [] \<Rightarrow> True
          | c # frac \<Rightarrow> c = CHR ''.'' \<and> frac \<noteq> [] \<and> (\<forall>d\<in>set frac. is_digit d)))"

definition parsePropertyValue :: "string \<Rightarrow> prop_value" where
  "parsePropertyValue v =
     (let t = trim v
      in if t = ''true'' then PBoolean True
         else if t = ''false'' then PBoolean False
         else if is_number_literal t then PNumber t
         else PString t)"

subsection \<open>Property objects\<close>

text \<open>
  A property object is the list of its own entries in the order of their creation.
  \<open>properties[key] = value\<close> overwrites the entry of an existing key in place and appends a
  new one otherwise. The key \<open>__proto__\<close> names the prototype accessor: assigning a
  string, number or boolean to it creates no entry.
\<close>

fun assign :: "string \<Rightarrow> prop_value \<Rightarrow> props \<Rightarrow> props" where
  "assign k v [] = [(k, v)]"
| "assign k v ((k', v') # ps) = (if k = k' then (k, v) # ps else (k', v') # assign k v ps)"

definition set_property :: "string \<Rightarrow> prop_value \<Rightarrow> props \<Rightarrow> props" where
  "set_property k v ps = (if k = ''__proto__'' then ps else assign k v ps)"

text \<open>
  The order in which the entries of an object are enumerated (\<open>Object.entries\<close>, the
  rest pattern, \<open>JSON.stringify\<close>): keys that are array indices first, by ascending value,
  then the other keys in the order of their creation. An array index is the decimal
  numeral, without leading zeros, of a number below \<open>2^32 - 1\<close>.
\<close>

definition digit_value :: "char \<Rightarrow> int" where
  "digit_value c = of_char c - 48"

definition decimal_value :: "string \<Rightarrow> int" where
  "decimal_value k = foldl (\<lambda>n c. 10 * n + digit_value c) 0 k"

definition is_array_index :: "string \<Rightarrow> bool" where
  "is_array_index k =
     (k \<noteq> [] \<and> (\<forall>c\<in>set k. is_digit c) \<and> (k = ''0'' \<or> take 1 k \<noteq> ''0'') \<and>
      decimal_value k < 4294967295)"

definition entries :: "props \<Rightarrow> props" where
  "entries ps =
     sort_key (\<lambda>(k, v). decimal_value k) (filter (\<lambda>(k, v). is_array_index k) ps) @
     filter (\<lambda>(k, v). \<not> is_array_index k) ps"

subsection \<open>From lines to items\<close>

record item =
  item_level :: nat
  item_content :: string
  item_properties :: props

text \<open>
  The inner loop of \<open>parseBlocks\<close>: the lines after a block start are consumed as
  properties of the block while they are indented by more tabs than the block and match
  \<open>PROPERTY_REGEX\<close> after trimming. The result is the property object and the lines
  that remain.
\<close>

fun take_properties :: "nat \<Rightarrow> string list \<Rightarrow> props \<Rightarrow> props \<times> string list" where
  "take_properties lvl [] ps = (ps, [])"
| "take_properties lvl (next # rest) ps =
     (let nextIndent = leading_tabs next
      in if nextIndent \<le> lvl \<and> trim next \<noteq> [] then (ps, next # rest)
         else (case PROPERTY_REGEX_match (trim next) of
                 Some (key, value) \<Rightarrow>
                   if nextIndent > lvl
                   then take_properties lvl rest (set_property key (parsePropertyValue value) ps)
                   else (ps, next # rest)
               | None \<Rightarrow> (ps, next # rest)))"

lemma take_properties_length:
  "take_properties lvl ls ps = (ps', ls') \<Longrightarrow> length ls' \<le> length ls"
proof (induction ls arbitrary: ps)
  case Nil
  then show ?case by simp
next
  case (Cons l ls)
  show ?case
  proof (cases "take_properties lvl (l # ls) ps = (ps, l # ls)")
    case True
    with Cons.prems show ?thesis by simp
  next
    case False
    then obtain k v where "take_properties lvl ls (set_property k (parsePropertyValue v) ps) = (ps', ls')"
      using Cons.prems by (auto simp: Let_def split: if_splits option.splits)
    from Cons.IH [OF this] show ?thesis by simp
  qed
qed

text \<open>The outer loop of \<open>parseBlocks\<close>, on the lines from index \<open>i\<close> on.\<close>

function parse_lines :: "string list \<Rightarrow> item list" where
  "parse_lines [] = []"
| "parse_lines (line # rest) =
     (case match_block_start line of
        Some (lvl, mainContent) \<Rightarrow>
          (case take_properties lvl rest [] of
             (ps, rest') \<Rightarrow>
               \<lparr>item_level = lvl, item_content = trim mainContent, item_properties = ps\<rparr>
                 # parse_lines rest')
      | None \<Rightarrow> parse_lines rest)"
  by pat_completeness auto
termination
  apply (relation "measure length")
    apply simp
   apply (auto dest!: sym [of _ "take_properties _ _ _"] take_properties_length)
  done

declare parse_lines.simps [simp del]

subsection \<open>Task markers\<close>

definition TASK_MARKERS :: "string list" where
  "TASK_MARKERS =
     [''TODO'', ''DOING'', ''DONE'', ''LATER'', ''NOW'', ''CANCELED'', ''CANCELLED'',
      ''IN-PROGRESS'', ''WAIT'', ''WAITING'']"

definition is_word_char :: "char \<Rightarrow> bool" where
  "is_word_char c =
     (c \<in> set ''abcdefghijklmnopqrstuvwxyzABCDEFGHIJKLMNOPQRSTUVWXYZ0123456789_'')"

text \<open>
  One alternative of \<open>TASK_MARKER_REGEX\<close>, which carries the flag \<open>i\<close>: the marker at the
  start of the text, a word boundary, white space, an optional priority \<open>[#A]\<close>, \<open>[#B]\<close>
  or \<open>[#C]\<close>, white space, and the rest of the text without a line terminator. The result
  is the matched marker text and the priority letter.
\<close>

definition match_marker :: "string \<Rightarrow> string \<Rightarrow> (string \<times> char option) option" where
  "match_marker m t =
     (if match_pattern (literal_ci m) t = None then None
      else
        let r = drop (length m) t;
            boundary = (case r of [] \<Rightarrow> True | c # _ \<Rightarrow> \<not> is_word_char c);
            r1 = dropWhile is_space r;
            priority' =
              (case r1 of
                 a # b # c # d # r2 \<Rightarrow>
                   if a = CHR ''['' \<and> b = CHR ''#'' \<and> c \<in> set ''ABCabc'' \<and> d = CHR '']''
                   then Some c else None
               | _ \<Rightarrow> None)
        in if \<not> boundary then None
           else (case priority' of
                   Some c \<Rightarrow>
                     if has_line_terminator (dropWhile is_space (drop 4 r1)) then None
                     else Some (take (length m) t, Some c)
                 | None \<Rightarrow>
                     if has_line_terminator r1 then None
                     else Some (take (length m) t, None)))"

text \<open>The alternatives are tried in the order of \<open>TASK_MARKERS\<close>.\<close>

fun first_marker :: "string list \<Rightarrow> string \<Rightarrow> (string \<times> char option) option" where
  "first_marker [] t = None"
| "first_marker (m # ms) t =
     (case match_marker m t of Some r \<Rightarrow> Some r | None \<Rightarrow> first_marker ms t)"

definition parseTaskFromContent :: "string \<Rightarrow> string option \<times> char option" where
  "parseTaskFromContent content' =
     (case first_marker TASK_MARKERS (trim content') of
        None \<Rightarrow> (None, None)
      | Some (m, pri) \<Rightarrow>
          let marker' = toUpperCase m;
              normalizedMarker =
                (if marker' = ''CANCELLED'' then ''CANCELED''
                 else if marker' = ''WAITING'' then ''WAIT'' else marker')
          in if normalizedMarker \<notin> set TASK_MARKERS then (None, None)
             else (Some normalizedMarker, pri))"

subsection \<open>Building the tree\<close>

text \<open>
  \<open>buildBlockTree\<close> keeps, besides the array \<open>blocks\<close> it returns, a stack of references to
  blocks already reachable from \<open>blocks\<close>, and appends to the \<open>children\<close> of the block on
  top of the stack. A reference is modelled by the path that leads from \<open>blocks\<close> to the
  block: the index of a root, then the index of a child, and so on. The empty path stands
  for the array \<open>blocks\<close> itself.
\<close>

type_synonym path = "nat list"

fun set_children :: "LogseqBlock \<Rightarrow> LogseqBlock list \<Rightarrow> LogseqBlock" where
  "set_children (Block u c l ps cs pu sp m pr) cs' = Block u c l ps cs' pu sp m pr"

fun set_parentUuid :: "LogseqBlock \<Rightarrow> string option \<Rightarrow> LogseqBlock" where
  "set_parentUuid (Block u c l ps cs pu sp m pr) pu' = Block u c l ps cs pu' sp m pr"

text \<open>The block a path refers to.\<close>

fun block_at :: "path \<Rightarrow> LogseqBlock list \<Rightarrow> LogseqBlock option" where
  "block_at [] bs = None"
| "block_at (i # p) bs =
     (if i < length bs
      then (if p = [] then Some (bs ! i) else block_at p (children (bs ! i)))
      else None)"

text \<open>The array at the end of a path: \<open>blocks\<close> for the empty path, the \<open>children\<close> of the
  block otherwise.\<close>

fun array_at :: "path \<Rightarrow> LogseqBlock list \<Rightarrow> LogseqBlock list" where
  "array_at [] bs = bs"
| "array_at (i # p) bs = (if i < length bs then array_at p (children (bs ! i)) else [])"

text \<open>\<open>push\<close> on the array at the end of a path.\<close>

fun push_at :: "path \<Rightarrow> LogseqBlock \<Rightarrow> LogseqBlock list \<Rightarrow> LogseqBlock list" where
  "push_at [] b bs = bs @ [b]"
| "push_at (i # p) b bs =
     (if i < length bs
      then bs[i := set_children (bs ! i) (push_at p b (children (bs ! i)))]
      else bs)"

text \<open>\<open>while (stack.length > 0 && stack[stack.length - 1].level >= item.level) stack.pop()\<close>;
  the top of the stack is the head of the list.\<close>

fun pop_stack :: "nat \<Rightarrow> (path \<times> nat) list \<Rightarrow> (path \<times> nat) list" where
  "pop_stack lvl [] = []"
| "pop_stack lvl ((p, l) # st) = (if l \<ge> lvl then pop_stack lvl st else (p, l) # st)"

text \<open>
  The state of the loop. \<open>uuidv4\<close> is the generator of the \<open>uuid\<close> package: the model takes
  the sequence of identifiers it returns as a parameter and counts the calls made.
\<close>

record build_state =
  blocks :: "LogseqBlock list"
  stack :: "(path \<times> nat) list"
  calls :: nat

text \<open>\<open>typeof properties.id === 'string' && UUID_REGEX.test(properties.id) ? properties.id : null\<close>.\<close>

definition explicit_id :: "props \<Rightarrow> string option" where
  "explicit_id ps =
     (case map_of ps ''id'' of
        Some (PString s) \<Rightarrow> if UUID_REGEX_test s then Some s else None
      | _ \<Rightarrow> None)"

definition build_step :: "(nat \<Rightarrow> string) \<Rightarrow> string \<Rightarrow> build_state \<Rightarrow> item \<Rightarrow> build_state" where
  "build_step uuidv4 sourcePath' st it =
     (let explicit = explicit_id (item_properties it);
          (uuid', calls') =
            (case explicit of
               Some s \<Rightarrow> (s, calls st)
             | None \<Rightarrow> (uuidv4 (calls st), calls st + 1));
          rest = filter (\<lambda>(k, v). k \<noteq> ''id'') (item_properties it);
          task = parseTaskFromContent (item_content it);
          block = Block uuid' (item_content it) (item_level it) rest [] None sourcePath'
                    (fst task) (snd task);
          stack' = pop_stack (item_level it) (stack st)
      in case stack' of
           (parent, _) # _ \<Rightarrow>
             \<lparr>blocks = push_at parent
                         (set_parentUuid block (map_option uuid (block_at parent (blocks st))))
                         (blocks st),
              stack = (parent @ [length (array_at parent (blocks st))], item_level it) # stack',
              calls = calls'\<rparr>
         | [] \<Rightarrow>
             \<lparr>blocks = push_at [] block (blocks st),
              stack = ([length (blocks st)], item_level it) # stack',
              calls = calls'\<rparr>)"

definition buildBlockTree ::
  "(nat \<Rightarrow> string) \<Rightarrow> nat \<Rightarrow> item list \<Rightarrow> string \<Rightarrow> LogseqBlock list \<times> nat" where
  "buildBlockTree uuidv4 n items sourcePath' =
     (let st = foldl (build_step uuidv4 sourcePath') \<lparr>blocks = [], stack = [], calls = n\<rparr> items
      in (blocks st, calls st))"

text \<open>\<open>parseBlocks\<close>, with the generator and the number of calls already made to it; it
  returns the forest and the number of calls made afterwards.\<close>

definition parseBlocks ::
  "(nat \<Rightarrow> string) \<Rightarrow> nat \<Rightarrow> string \<Rightarrow> string \<Rightarrow> LogseqBlock list \<times> nat" where
  "parseBlocks uuidv4 n content' sourcePath' =
     buildBlockTree uuidv4 n (parse_lines (split_nl content')) sourcePath'"

subsection \<open>Traversal and serialization\<close>

fun visit :: "LogseqBlock \<Rightarrow> LogseqBlock list" where
  "visit (Block u c l ps cs pu sp m pr) =
     Block u c l ps cs pu sp m pr # concat (map visit cs)"

definition flattenBlocks :: "LogseqBlock list \<Rightarrow> LogseqBlock list" where
  "flattenBlocks bs = concat (map visit bs)"

definition findBlockByUuid :: "LogseqBlock list \<Rightarrow> string \<Rightarrow> LogseqBlock option" where
  "findBlockByUuid bs uuid' = find (\<lambda>b. uuid b = uuid') (flattenBlocks bs)"

text \<open>
  A property value in a template literal. \<open>number_to_string\<close> is how the host prints the
  number a numeric literal denotes.
\<close>

fun value_to_string :: "(string \<Rightarrow> string) \<Rightarrow> prop_value \<Rightarrow> string" where
  "value_to_string number_to_string (PString s) = s"
| "value_to_string number_to_string (PNumber lit) = number_to_string lit"
| "value_to_string number_to_string (PBoolean b) = (if b then ''true'' else ''false'')"

definition tabs :: "nat \<Rightarrow> string" where
  "tabs n = replicate n (CHR 0x09)"

fun serialize_visit :: "(string \<Rightarrow> string) \<Rightarrow> LogseqBlock \<Rightarrow> nat \<Rightarrow> string list" where
  "serialize_visit number_to_string (Block u c l ps cs pu sp m pr) indent =
     (let prefix = tabs indent @ ''- '';
          propLines =
            (if u \<noteq> [] then [''id:: '' @ u] else []) @
            map (\<lambda>(k, v). k @ '':: '' @ value_to_string number_to_string v) (entries ps);
          mainContent = trim c
      in (prefix @ mainContent) # map (\<lambda>p. tabs (indent + 1) @ p) propLines @
         concat (map (\<lambda>b. serialize_visit number_to_string b (indent + 1)) cs))"

definition serializeBlocks :: "(string \<Rightarrow> string) \<Rightarrow> LogseqBlock list \<Rightarrow> string" where
  "serializeBlocks number_to_string bs =
     join_nl (concat (map (\<lambda>b. serialize_visit number_to_string b 0) bs))"

section \<open>The search service\<close>

subsection \<open>String operations\<close>

text \<open>The offset of the first occurrence of \<open>q\<close> in \<open>s\<close>.\<close>

fun find_sub :: "string \<Rightarrow> string \<Rightarrow> nat option" where
  "find_sub q [] = (if q = [] then Some 0 else None)"
| "find_sub q (c # cs) =
     (if take (length q) (c # cs) = q then Some 0 else map_option Suc (find_sub q cs))"

text \<open>\<open>s.indexOf(q, from)\<close> for \<open>from \<ge> 0\<close>, with \<open>None\<close> for \<open>-1\<close>; and \<open>s.indexOf(q)\<close> as the
  number it returns; \<open>s.includes(q)\<close>.\<close>

definition index_from :: "string \<Rightarrow> string \<Rightarrow> nat \<Rightarrow> nat option" where
  "index_from s q from =
     map_option (\<lambda>k. min from (length s) + k) (find_sub q (drop (min from (length s)) s))"

definition indexOf :: "string \<Rightarrow> string \<Rightarrow> int" where
  "indexOf s q = (case index_from s q 0 of None \<Rightarrow> - 1 | Some k \<Rightarrow> int k)"

definition str_includes :: "string \<Rightarrow> string \<Rightarrow> bool" where
  "str_includes s q = (index_from s q 0 \<noteq> None)"

text \<open>\<open>s.slice(start, end)\<close>: a negative index counts from the end of the string.\<close>

definition slice :: "string \<Rightarrow> int \<Rightarrow> int \<Rightarrow> string" where
  "slice s start end' =
     (let len = int (length s);
          from = (if start < 0 then max (len + start) 0 else min start len);
          to = (if end' < 0 then max (len + end') 0 else min end' len)
      in take (nat (to - from)) (drop (nat from) s))"

text \<open>\<open>JSON.stringify\<close> of a string of the modelled range, and of a property object.
  \<open>number_to_json\<close> is how the host prints in JSON the number a numeric literal denotes.\<close>

definition hex_digit :: "nat \<Rightarrow> char" where
  "hex_digit n = ''0123456789abcdef'' ! (n mod 16)"

definition json_escape_char :: "char \<Rightarrow> string" where
  "json_escape_char c =
     (if c = CHR 0x22 then [CHR 0x5C, CHR 0x22]
      else if c = CHR 0x5C then [CHR 0x5C, CHR 0x5C]
      else if c = CHR 0x08 then [CHR 0x5C, CHR ''b'']
      else if c = CHR 0x0C then [CHR 0x5C, CHR ''f'']
      else if c = CHR 0x0A then [CHR 0x5C, CHR ''n'']
      else if c = CHR 0x0D then [CHR 0x5C, CHR ''r'']
      else if c = CHR 0x09 then [CHR 0x5C, CHR ''t'']
      else if (of_char c :: nat) < 32
        then [CHR 0x5C, CHR ''u'', CHR ''0'', CHR ''0'',
              hex_digit (of_char c div 16), hex_digit (of_char c)]
      else [c])"

definition json_string :: "string \<Rightarrow> string" where
  "json_string s = [CHR 0x22] @ concat (map json_escape_char s) @ [CHR 0x22]"

fun json_value :: "(string \<Rightarrow> string) \<Rightarrow> prop_value \<Rightarrow> string" where
  "json_value number_to_json (PString s) = json_string s"
| "json_value number_to_json (PNumber lit) = number_to_json lit"
| "json_value number_to_json (PBoolean b) = (if b then ''true'' else ''false'')"

fun join_comma :: "string list \<Rightarrow> string" where
  "join_comma [] = []"
| "join_comma [x] = x"
| "join_comma (x # xs) = x @ '','' @ join_comma xs"

definition JSON_stringify :: "(string \<Rightarrow> string) \<Rightarrow> props \<Rightarrow> string" where
  "JSON_stringify number_to_json ps =
     ''{'' @ join_comma (map (\<lambda>(k, v). json_string k @ '':'' @ json_value number_to_json v)
                              (entries ps)) @ ''}''"

subsection \<open>Parameters, results and the file tree\<close>

text \<open>
  The \<open>limit\<close> of a search is a number of the host language: a finite number, an infinity,
  or \<open>NaN\<close>, which is what a limit that is not numeric becomes in \<open>Math.min\<close>. The limit is
  used only in \<open>Math.min(limit, 20)\<close> and in the comparison \<open>results.length >= maxLimit\<close>
  of a length with the result; for a finite number both give what they give for the least
  integer not below it, so \<open>Finite k\<close> stands for the finite numbers with that integer \<open>k\<close>.
  A comparison with \<open>NaN\<close> is false.
\<close>

datatype js_number = Finite int | PosInfinity | NegInfinity | NaN

fun Math_min :: "js_number \<Rightarrow> js_number \<Rightarrow> js_number" where
  "Math_min NaN b = NaN"
| "Math_min a NaN = NaN"
| "Math_min NegInfinity b = NegInfinity"
| "Math_min a NegInfinity = NegInfinity"
| "Math_min PosInfinity b = b"
| "Math_min a PosInfinity = a"
| "Math_min (Finite x) (Finite y) = Finite (min x y)"

text \<open>\<open>n >= x\<close> for a length \<open>n\<close>.\<close>

fun length_ge :: "nat \<Rightarrow> js_number \<Rightarrow> bool" where
  "length_ge n (Finite k) = (int n \<ge> k)"
| "length_ge n PosInfinity = False"
| "length_ge n NegInfinity = True"
| "length_ge n NaN = False"

record SearchParams =
  query :: "string option"
  limit :: "js_number option"
  searchContent :: "bool option"
  searchFrontmatter :: "bool option"
  searchBlockProperties :: "bool option"
  caseSensitive :: "bool option"

text \<open>The fields \<open>p\<close>, \<open>t\<close>, \<open>uuid\<close>, \<open>ex\<close>, \<open>mc\<close> and \<open>ln\<close> of \<open>BlockSearchResult\<close>.\<close>

record BlockSearchResult =
  res_p :: string
  res_t :: string
  res_uuid :: "string option"
  res_ex :: string
  res_mc :: nat
  res_ln :: "nat option"

datatype search_error = EmptyQuery

text \<open>
  The graph directory as \<open>readdir\<close> and \<open>readFile\<close> see it: a file has a name and a content
  (\<open>None\<close> when reading it fails), a directory has a name and its entries (\<open>None\<close> when
  listing it fails), and any other entry has a name only. The calls made to the file
  system are recorded as events.
\<close>

datatype dirent = File string "string option" | Dir string "dirent list option" | Other string

datatype io_event = ReadDir string | ReadFile string

definition ends_with :: "string \<Rightarrow> string \<Rightarrow> bool" where
  "ends_with s suffix = (length suffix \<le> length s \<and> drop (length s - length suffix) s = suffix)"

text \<open>\<open>s.split(c)\<close> for a separator of one character.\<close>

function split_on :: "char \<Rightarrow> string \<Rightarrow> string list" where
  "split_on sep s =
     (case dropWhile (\<lambda>c. c \<noteq> sep) s of
        [] \<Rightarrow> [takeWhile (\<lambda>c. c \<noteq> sep) s]
      | _ # r \<Rightarrow> takeWhile (\<lambda>c. c \<noteq> sep) s # split_on sep r)"
  by pat_completeness auto
termination
proof (relation "measure (\<lambda>(sep, s). length s)")
  fix sep :: char and s :: string and x r
  assume "dropWhile (\<lambda>c. c \<noteq> sep) s = x # r"
  then have "length (x # r) \<le> length s"
    by (metis length_dropWhile_le)
  then show "((sep, r), (sep, s)) \<in> measure (\<lambda>(sep, s). length s)" by simp
qed simp

declare split_on.simps [simp del]

fun join_slash :: "string list \<Rightarrow> string" where
  "join_slash [] = []"
| "join_slash [x] = x"
| "join_slash (x # xs) = x @ ''/'' @ join_slash xs"

text \<open>
  \<open>path.join(dirPath, name)\<close> on a POSIX host: the two parts joined by a slash and
  normalised. Normalising drops empty segments and \<open>.\<close> segments, lets a \<open>..\<close> segment
  remove the segment before it (at the root of an absolute path it is dropped, at the
  start of a relative path it stays), and keeps a leading and a trailing slash.
\<close>

definition normalize_segment :: "bool \<Rightarrow> string list \<Rightarrow> string \<Rightarrow> string list" where
  "normalize_segment allowAboveRoot res seg =
     (if seg = [] \<or> seg = ''.'' then res
      else if seg = ''..''
        then (if res \<noteq> [] \<and> last res \<noteq> ''..'' then butlast res
              else if allowAboveRoot then res @ [''..''] else res)
      else res @ [seg])"

definition path_normalize :: "string \<Rightarrow> string" where
  "path_normalize path =
     (if path = [] then ''.''
      else
        let isAbsolute = (take 1 path = ''/'');
            trailingSeparator = (drop (length path - 1) path = ''/'');
            res = join_slash (foldl (normalize_segment (\<not> isAbsolute)) [] (split_on CHR ''/'' path))
        in if res = [] then (if isAbsolute then ''/'' else if trailingSeparator then ''./'' else ''.'')
           else (if isAbsolute then ''/'' else []) @ res @ (if trailingSeparator then ''/'' else []))"

definition path_join :: "string \<Rightarrow> string \<Rightarrow> string" where
  "path_join a b =
     (let joined = (if a = [] then b else if b = [] then a else a @ ''/'' @ b)
      in if joined = [] then ''.'' else path_normalize joined)"

text \<open>\<open>findMarkdownFiles\<close>: the full paths of the files named \<open>*.md\<close> below a directory, each
  with the content a later \<open>readFile\<close> of that path finds, and the directories listed.\<close>

fun findMarkdownFiles ::
    "string \<Rightarrow> dirent list option \<Rightarrow> (string \<times> string option) list \<times> io_event list"
  and find_entries ::
    "string \<Rightarrow> dirent list \<Rightarrow> (string \<times> string option) list \<times> io_event list"
  and find_entry ::
    "string \<Rightarrow> dirent \<Rightarrow> (string \<times> string option) list \<times> io_event list" where
  "findMarkdownFiles dirPath None = ([], [ReadDir dirPath])"
| "findMarkdownFiles dirPath (Some es) =
     (case find_entries dirPath es of (out, log) \<Rightarrow> (out, ReadDir dirPath # log))"
| "find_entries dirPath [] = ([], [])"
| "find_entries dirPath (e # es) =
     (case find_entry dirPath e of
        (out, log) \<Rightarrow> (case find_entries dirPath es of (out', log') \<Rightarrow> (out @ out', log @ log')))"
| "find_entry dirPath (Dir name es) = findMarkdownFiles (path_join dirPath name) es"
| "find_entry dirPath (File name file) =
     (if ends_with name ''.md'' then ([(path_join dirPath name, file)], []) else ([], []))"
| "find_entry dirPath (Other name) = ([], [])"

subsection \<open>The search\<close>

text \<open>\<open>raw.match(/^---\n([\s\S]*?)\n---\n/)\<close>: the front matter and the length of the match.\<close>

definition match_frontmatter :: "string \<Rightarrow> (string \<times> nat) option" where
  "match_frontmatter raw =
     (if take 4 raw = ''---'' @ [CHR 0x0A]
      then (case find_sub ([CHR 0x0A] @ ''---'' @ [CHR 0x0A]) (drop 4 raw) of
              None \<Rightarrow> None
            | Some j \<Rightarrow> Some (take j (drop 4 raw), 4 + j + 5))
      else None)"

text \<open>\<open>relativePath.split('/').pop()?.replace(/\.md$/, '') ?? relativePath\<close>.\<close>

definition title_of :: "string \<Rightarrow> string" where
  "title_of relativePath =
     (let name = rev (takeWhile (\<lambda>c. c \<noteq> CHR ''/'') (rev relativePath))
      in if ends_with name ''.md'' then take (length name - 3) name else name)"

text \<open>
  The loop that counts the occurrences of the query in a block. With an empty query
  \<open>indexOf\<close> never returns \<open>-1\<close> and \<open>idx\<close> never advances, so the loop is a partial
  function: \<open>None\<close> stands for a loop that does not end.
\<close>

partial_function (option) count_matches :: "string \<Rightarrow> string \<Rightarrow> nat \<Rightarrow> nat \<Rightarrow> nat option" where
  "count_matches blockSearch searchQuery idx matchCount =
     (case index_from blockSearch searchQuery idx of
        None \<Rightarrow> Some matchCount
      | Some j \<Rightarrow> count_matches blockSearch searchQuery (j + length searchQuery) (matchCount + 1))"

declare count_matches.simps [code]

text \<open>The body of the loop over the blocks of a file, for a block that matches.\<close>

definition block_result ::
  "string \<Rightarrow> string \<Rightarrow> LogseqBlock \<Rightarrow> nat \<Rightarrow> BlockSearchResult" where
  "block_result query' relativePath block matchCount =
     (let excerptStart = max 0 (indexOf (content block) query' - 21);
          excerptEnd = min (int (length (content block)))
                           (indexOf (content block) query' + int (length query') + 21);
          excerpt0 = trim (slice (content block) excerptStart excerptEnd);
          excerpt1 = (if excerptStart > 0 then ''...'' @ excerpt0 else excerpt0);
          excerpt = (if excerptEnd < int (length (content block)) then excerpt1 @ ''...'' else excerpt1)
      in \<lparr>res_p = relativePath, res_t = title_of relativePath, res_uuid = Some (uuid block),
          res_ex = (if excerpt \<noteq> [] then excerpt else slice (content block) 0 42),
          res_mc = matchCount, res_ln = Some 0\<rparr>)"

fun block_loop ::
  "(string \<Rightarrow> string) \<Rightarrow> bool \<Rightarrow> string \<Rightarrow> string \<Rightarrow> js_number \<Rightarrow> string \<Rightarrow> LogseqBlock list \<Rightarrow>
     BlockSearchResult list \<Rightarrow> BlockSearchResult list option" where
  "block_loop number_to_json cs query' searchQuery maxLimit relativePath [] results = Some results"
| "block_loop number_to_json cs query' searchQuery maxLimit relativePath (block # flat) results =
     (let blockText = content block @ '' '' @ JSON_stringify number_to_json (properties block);
          blockSearch = (if cs then blockText else toLowerCase blockText)
      in if str_includes blockSearch searchQuery
         then (case count_matches blockSearch searchQuery 0 0 of
                 None \<Rightarrow> None
               | Some matchCount \<Rightarrow>
                   let results' = results @ [block_result query' relativePath block matchCount]
                   in if length_ge (length results') maxLimit then Some results'
                      else block_loop number_to_json cs query' searchQuery maxLimit relativePath
                             flat results')
         else block_loop number_to_json cs query' searchQuery maxLimit relativePath flat results)"

text \<open>The result for a file in which the query occurs at \<open>index\<close> of the searchable text.\<close>

definition file_result :: "string \<Rightarrow> string \<Rightarrow> string \<Rightarrow> int \<Rightarrow> BlockSearchResult" where
  "file_result relativePath searchableText searchQuery index =
     (let excerptStart = max 0 (index - 21);
          excerptEnd = min (int (length searchableText)) (index + int (length searchQuery) + 21);
          ex0 = trim (slice searchableText excerptStart excerptEnd);
          ex1 = (if excerptStart > 0 then ''...'' @ ex0 else ex0);
          ex2 = (if excerptEnd < int (length searchableText) then ex1 @ ''...'' else ex1)
      in \<lparr>res_p = relativePath, res_t = title_of relativePath, res_uuid = None, res_ex = ex2,
          res_mc = 1, res_ln = Some (length (split_nl (slice searchableText 0 index)))\<rparr>)"

text \<open>
  The body of the loop over the files, inside \<open>try\<close>, for a file that was read: the results
  so far and the calls made to \<open>uuidv4\<close> go in, and come out updated.
\<close>

definition search_file ::
  "(nat \<Rightarrow> string) \<Rightarrow> (string \<Rightarrow> string) \<Rightarrow> bool \<Rightarrow> bool \<Rightarrow> bool \<Rightarrow> bool \<Rightarrow> string \<Rightarrow> js_number \<Rightarrow>
     string \<Rightarrow> string \<Rightarrow> BlockSearchResult list \<times> nat \<Rightarrow> (BlockSearchResult list \<times> nat) option" where
  "search_file uuidv4 number_to_json sc sf sbp cs query' maxLimit relativePath raw state =
     (case state of (results, n) \<Rightarrow>
      let frontmatterMatch = match_frontmatter raw;
          body = (case frontmatterMatch of Some (fm, len) \<Rightarrow> drop len raw | None \<Rightarrow> raw);
          frontmatter = (case frontmatterMatch of Some (fm, len) \<Rightarrow> fm | None \<Rightarrow> []);
          searchableText =
            (if sc \<and> sf \<and> sbp then raw
             else if sc then body
             else if sf then frontmatter
             else if sbp then body
             else []);
          searchIn = (if cs then searchableText else toLowerCase searchableText);
          searchQuery = (if cs then query' else toLowerCase query');
          index = indexOf searchIn searchQuery
      in if index \<noteq> - 1
         then (case parseBlocks uuidv4 n body relativePath of
                 (blocks', n') \<Rightarrow>
                   (case block_loop number_to_json cs query' searchQuery maxLimit relativePath
                           (flattenBlocks blocks') results of
                      None \<Rightarrow> None
                    | Some results' \<Rightarrow>
                        if length results' = 0 \<and> index \<noteq> - 1
                        then Some (results' @ [file_result relativePath searchableText searchQuery index], n')
                        else Some (results', n')))
         else Some (results, n))"

text \<open>The loop over the files found. \<open>isAllowed\<close> is the path filter the service was built with.\<close>

fun search_files ::
  "(nat \<Rightarrow> string) \<Rightarrow> (string \<Rightarrow> string) \<Rightarrow> (string \<Rightarrow> bool) \<Rightarrow> string \<Rightarrow>
     bool \<Rightarrow> bool \<Rightarrow> bool \<Rightarrow> bool \<Rightarrow> string \<Rightarrow> js_number \<Rightarrow> (string \<times> string option) list \<Rightarrow>
     BlockSearchResult list \<times> nat \<Rightarrow> io_event list \<Rightarrow>
     (BlockSearchResult list \<times> io_event list) option" where
  "search_files uuidv4 number_to_json isAllowed graphPath sc sf sbp cs query' maxLimit [] state log =
     Some (fst state, log)"
| "search_files uuidv4 number_to_json isAllowed graphPath sc sf sbp cs query' maxLimit
     ((fullPath, file) # files) state log =
     (let relativePath =
            map (\<lambda>c. if c = CHR 0x5C then CHR ''/'' else c) (drop (length graphPath + 1) fullPath)
      in if \<not> isAllowed relativePath
         then search_files uuidv4 number_to_json isAllowed graphPath sc sf sbp cs query' maxLimit
                files state log
         else if length_ge (length (fst state)) maxLimit then Some (fst state, log)
         else (case file of
                 None \<Rightarrow>
                   search_files uuidv4 number_to_json isAllowed graphPath sc sf sbp cs query'
                     maxLimit files state (log @ [ReadFile fullPath])
               | Some raw \<Rightarrow>
                   (case search_file uuidv4 number_to_json sc sf sbp cs query' maxLimit
                           relativePath raw state of
                      None \<Rightarrow> None
                    | Some state' \<Rightarrow>
                        search_files uuidv4 number_to_json isAllowed graphPath sc sf sbp cs query'
                          maxLimit files state' (log @ [ReadFile fullPath]))))"

text \<open>
  \<open>SearchService.search\<close>. The service holds the graph path and the path filter; the
  directory tree below the graph path, the identifier generator with the number of calls
  made so far, and the number printer are the environment. The result is the list of
  file-system events and either the error thrown or the list returned; \<open>None\<close> stands for a
  call that does not return.
\<close>

definition search ::
  "(nat \<Rightarrow> string) \<Rightarrow> nat \<Rightarrow> (string \<Rightarrow> string) \<Rightarrow> string \<Rightarrow> (string \<Rightarrow> bool) \<Rightarrow>
     dirent list option \<Rightarrow> SearchParams \<Rightarrow>
     (io_event list \<times> (search_error + BlockSearchResult list)) option" where
  "search uuidv4 n number_to_json graphPath isAllowed tree params =
     (let limit' = (case limit params of None \<Rightarrow> Finite 5 | Some l \<Rightarrow> l);
          sc = (case searchContent params of None \<Rightarrow> True | Some b \<Rightarrow> b);
          sf = (case searchFrontmatter params of None \<Rightarrow> False | Some b \<Rightarrow> b);
          sbp = (case searchBlockProperties params of None \<Rightarrow> True | Some b \<Rightarrow> b);
          cs = (case caseSensitive params of None \<Rightarrow> False | Some b \<Rightarrow> b)
      in case query params of
           None \<Rightarrow> Some ([], Inl EmptyQuery)
         | Some query' \<Rightarrow>
             if query' = [] \<or> length (trim query') = 0 then Some ([], Inl EmptyQuery)
             else
               let maxLimit = Math_min limit' (Finite 20)
               in (case findMarkdownFiles graphPath tree of
                     (files, log) \<Rightarrow>
                       (case search_files uuidv4 number_to_json isAllowed graphPath sc sf sbp cs
                               query' maxLimit files ([], n) log of
                          None \<Rightarrow> None
                        | Some (results, log') \<Rightarrow> Some (log', Inr results))))"

section \<open>Properties of block references\<close>

text \<open>A character satisfies a class.\<close>

definition holds :: "(char \<Rightarrow> bool) \<Rightarrow> char \<Rightarrow> bool" where
  "holds p c = p c"


lemma match_pattern_all2:
  "list_all2 holds ps t \<Longrightarrow> match_pattern ps (t @ r) = Some r"
  by (induction ps t rule: list_all2_induct) (auto simp: holds_def)

lemma match_pattern_split:
  "match_pattern ps s = Some r \<Longrightarrow> \<exists>t. s = t @ r \<and> list_all2 holds ps t"
proof (induction ps s rule: match_pattern.induct)
  case (3 p ps c cs)
  then obtain t where "cs = t @ r" "list_all2 holds ps t" "p c"
    by (auto split: if_splits)
  then have "c # cs = (c # t) @ r \<and> list_all2 holds (p # ps) (c # t)" by (simp add: holds_def)
  then show ?case by blast
qed auto

lemma all2_pattern_mono:
  "list_all2 (\<lambda>p q. \<forall>c. p c \<longrightarrow> q c) ps qs \<Longrightarrow> list_all2 holds ps t
     \<Longrightarrow> list_all2 holds qs t"
proof (induction ps qs arbitrary: t rule: list_all2_induct)
  case Nil
  then show ?case by simp
next
  case (Cons p ps q qs)
  then show ?case by (cases t) (auto simp: holds_def)
qed

lemma uuid_pattern_mono:
  "(\<And>c. h c \<Longrightarrow> h' c) \<Longrightarrow> list_all2 (\<lambda>p q. \<forall>c. p c \<longrightarrow> q c) (uuid_pattern h) (uuid_pattern h')"
  unfolding uuid_pattern_def
  by (intro list_all2_appendI) (simp_all add: list_all2_conv_all_nth)

lemma all2_pattern_set:
  "list_all2 holds ps t \<Longrightarrow> \<forall>p\<in>set ps. \<forall>c. p c \<longrightarrow> Q c \<Longrightarrow> \<forall>c\<in>set t. Q c"
  by (induction ps t rule: list_all2_induct) (auto simp: holds_def)

lemma hex_lower_imp_hex_i: "hex_lower c \<Longrightarrow> hex_i c"
  by (auto simp: hex_lower_def hex_i_def)

lemma to_lower_char_hex: "hex_lower c \<Longrightarrow> to_lower_char c = c"
  by (auto simp: hex_lower_def to_lower_char_def)

lemma to_lower_char_dash: "to_lower_char CHR ''-'' = CHR ''-''"
  by (simp add: to_lower_char_def)

lemma lowercase_uuid_all2:
  "is_lowercase_uuid u \<Longrightarrow> list_all2 holds (uuid_pattern hex_lower) u"
  unfolding is_lowercase_uuid_def by (drule match_pattern_split) simp

lemma lowercase_uuid_length: "is_lowercase_uuid u \<Longrightarrow> length u = 36"
  unfolding is_lowercase_uuid_def by (drule match_pattern_length) (simp add: uuid_pattern_def)

lemma toLowerCase_lowercase_uuid:
  assumes "is_lowercase_uuid u" shows "toLowerCase u = u"
proof -
  have "\<forall>c\<in>set u. to_lower_char c = c"
    by (rule all2_pattern_set [OF lowercase_uuid_all2 [OF assms]])
       (auto simp: uuid_pattern_def to_lower_char_hex to_lower_char_dash)
  then show ?thesis by (simp add: toLowerCase_def map_idI)
qed

lemma block_ref_matches:
  assumes "is_lowercase_uuid u"
  shows "match_pattern BLOCK_REF_REGEX (''(('' @ u @ ''))'' @ r) = Some r"
proof -
  have "list_all2 holds (uuid_pattern hex_i) u"
    by (rule all2_pattern_mono [OF uuid_pattern_mono lowercase_uuid_all2 [OF assms]])
       (rule hex_lower_imp_hex_i)
  then have "list_all2 holds BLOCK_REF_REGEX (''(('' @ u @ ''))'')"
    unfolding BLOCK_REF_REGEX_def by (intro list_all2_appendI) (simp_all add: holds_def)
  from match_pattern_all2 [OF this, of r] show ?thesis by simp
qed

text \<open>
  Claim C10. For every identifier \<open>u\<close> in the lower-case 8-4-4-4-12 format,
  \<open>extractBlockRefs (createBlockRef u)\<close> is the one-element list \<open>[u]\<close>.
\<close>

theorem extract_create_roundtrip:
  assumes "is_lowercase_uuid u"
  shows "extractBlockRefs (createBlockRef u) = [u]"
proof -
  let ?s = "''(('' @ u @ ''))''"
  have len: "length ?s = 40" using lowercase_uuid_length [OF assms] by simp
  have m: "matches_here BLOCK_REF_REGEX ?s"
    using block_ref_matches [OF assms, of "[]"] by (simp add: matches_here_def)
  have first: "regexp_exec BLOCK_REF_REGEX ?s 0 = (Some 0, 40)"
    using m by (simp add: regexp_exec_def BLOCK_REF_REGEX_length)
  have "drop 40 ?s = []" using len by simp
  moreover have "\<not> matches_here BLOCK_REF_REGEX []"
    by (simp add: matches_here_def BLOCK_REF_REGEX_def)
  ultimately have second: "regexp_exec BLOCK_REF_REGEX ?s 40 = (None, 0)"
    using len by (simp add: regexp_exec_def)
  have grp: "ref_group ?s 0 = u"
    using lowercase_uuid_length [OF assms] by (simp add: ref_group_def)
  have "extract_loop ?s 0 [] = [u]"
    by (subst extract_loop.simps, simp only: first prod.case option.case,
        subst extract_loop.simps, simp only: second prod.case option.case)
       (simp add: ref_group_def lowercase_uuid_length [OF assms] toLowerCase_lowercase_uuid [OF assms])
  then show ?thesis by (simp add: extractBlockRefs_def createBlockRef_def)
qed

theorem extract_create_roundtrip_witness:
  "is_lowercase_uuid ''11111111-1111-1111-1111-111111111111'' \<and>
   extractBlockRefs (createBlockRef ''11111111-1111-1111-1111-111111111111'')
     = [''11111111-1111-1111-1111-111111111111'']"
proof -
  have h: "is_lowercase_uuid ''11111111-1111-1111-1111-111111111111''"
    by code_simp
  show ?thesis using h extract_create_roundtrip [OF h] by simp
qed


text \<open>
  Claim C9. \<open>hasBlockRef\<close> is not a function of its argument alone: on a fresh module the
  first call on a text that consists of one reference token answers \<open>True\<close> and leaves
  \<open>lastIndex = 40\<close>; the second call on the same text starts there and answers \<open>False\<close>.
\<close>

theorem hasBlockRef_second_call:
  "hasBlockRef ''((11111111-1111-1111-1111-111111111111))'' 0 = (True, 40) \<and>
   hasBlockRef ''((11111111-1111-1111-1111-111111111111))'' 40 = (False, 0)"
proof -
  have "regexp_exec BLOCK_REF_REGEX ''((11111111-1111-1111-1111-111111111111))'' 0 = (Some 0, 40)"
    by code_simp
  moreover have "regexp_exec BLOCK_REF_REGEX ''((11111111-1111-1111-1111-111111111111))'' 40 = (None, 0)"
    by (simp add: regexp_exec_def matches_here_def BLOCK_REF_REGEX_def)
  ultimately show ?thesis by (simp add: hasBlockRef_def)
qed

lemma find_match_matches: "find_match ps s = Some k \<Longrightarrow> matches_here ps (drop k s)"
proof (induction s arbitrary: k)
  case Nil
  then show ?case by (auto split: if_splits)
next
  case (Cons c cs)
  then show ?case by (cases "matches_here ps (c # cs)") auto
qed

lemma regexp_exec_match:
  assumes "regexp_exec ps s pos = (Some i, e)"
  shows "pos \<le> i \<and> i + length ps \<le> length s \<and> matches_here ps (drop i s)"
proof -
  from assms obtain k where k: "find_match ps (drop pos s) = Some k" and i: "i = pos + k"
    and le: "pos \<le> length s"
    by (auto simp: regexp_exec_def split: if_splits option.splits)
  from find_match_bound [OF k] find_match_matches [OF k] i le show ?thesis
    by (simp add: add.commute)
qed

lemma replace_all_identity:
  assumes "\<And>i. matches_here ps (drop i s) \<Longrightarrow> f (take (length ps) (drop i s)) i s = take (length ps) (drop i s)"
    and "ps \<noteq> []"
  shows "replace_all ps f s pos = drop pos s"
proof (induction "Suc (length s) - pos" arbitrary: pos rule: less_induct)
  case less
  show ?case
  proof (cases "regexp_exec ps s pos")
    case (Pair r e)
    show ?thesis
    proof (cases r)
      case None
      with Pair show ?thesis by (subst replace_all.simps) simp
    next
      case (Some i)
      from regexp_exec_match [of ps s pos i e] Pair Some
      have m: "pos \<le> i" "i + length ps \<le> length s" "matches_here ps (drop i s)" by auto
      have n: "max 1 (length ps) = length ps" using assms(2) by (cases ps) auto
      have "Suc (length s) - (i + length ps) < Suc (length s) - pos"
        using m assms(2) by (cases ps) auto
      from less [OF this] have rec: "replace_all ps f s (i + length ps) = drop (i + length ps) s" .
      have "take (i - pos) (drop pos s) @ take (length ps) (drop i s) @ drop (i + length ps) s
          = drop pos s"
      proof -
        have "take (length ps) (drop i s) @ drop (i + length ps) s = drop i s"
          by (metis add.commute append_take_drop_id drop_drop)
        moreover have "take (i - pos) (drop pos s) @ drop i s = drop pos s"
          using m(1) by (metis append_take_drop_id drop_drop le_add_diff_inverse2)
        ultimately show ?thesis by simp
      qed
      then show ?thesis using Pair Some assms(1) [OF m(3)] assms(2) rec n
        by (subst replace_all.simps) simp
    qed
  qed
qed

lemma block_ref_token:
  assumes "matches_here BLOCK_REF_REGEX t"
  shows "''(('' @ take 36 (drop 2 (take 40 t)) @ ''))'' = take 40 t"
proof -
  from assms obtain r where "match_pattern BLOCK_REF_REGEX t = Some r"
    by (auto simp: matches_here_def)
  from match_pattern_split [OF this] obtain m where t: "t = m @ r"
    and a: "list_all2 holds BLOCK_REF_REGEX m" by blast
  have len: "length m = 40" using list_all2_lengthD [OF a] BLOCK_REF_REGEX_length by simp
  have nth: "holds (BLOCK_REF_REGEX ! j) (m ! j)" if "j < 40" for j
    using list_all2_nthD [OF a, of j] that BLOCK_REF_REGEX_length by simp
  have p: "BLOCK_REF_REGEX ! 0 = (=) CHR ''(''" "BLOCK_REF_REGEX ! 1 = (=) CHR ''(''"
    "BLOCK_REF_REGEX ! 38 = (=) CHR '')''" "BLOCK_REF_REGEX ! 39 = (=) CHR '')''"
    by (simp_all add: BLOCK_REF_REGEX_def uuid_pattern_def nth_append)
  have c: "m ! 0 = CHR ''(''" "m ! 1 = CHR ''(''" "m ! 38 = CHR '')''" "m ! 39 = CHR '')''"
    using nth [of 0] nth [of 1] nth [of 38] nth [of 39] p by (simp_all add: holds_def)
  have t2: "take 2 m = ''((''"
  proof -
    have "take (Suc (Suc 0)) m = [m ! 0, m ! 1]" using len by (simp add: take_Suc_conv_app_nth)
    then show ?thesis using c by (simp add: numeral_2_eq_2)
  qed
  have d38: "drop 38 m = ''))''"
  proof -
    have "drop 38 m = m ! 38 # drop 39 m" using Cons_nth_drop_Suc [of 38 m] len by simp
    also have "drop 39 m = m ! 39 # drop 40 m" using Cons_nth_drop_Suc [of 39 m] len by simp
    also have "drop 40 m = []" using len by simp
    finally show ?thesis using c by simp
  qed
  have "drop 36 (drop 2 m) = drop 38 m" by simp
  then have "drop 2 m = take 36 (drop 2 m) @ drop 38 m"
    using append_take_drop_id [of 36 "drop 2 m"] by (simp only:)
  then have "take 2 m @ drop 2 m = take 2 m @ take 36 (drop 2 m) @ drop 38 m" by (simp only:)
  then have "m = take 2 m @ take 36 (drop 2 m) @ drop 38 m"
    by (simp only: append_take_drop_id)
  then have "m = ''(('' @ take 36 (drop 2 m) @ ''))''"
    by (simp only: t2 d38)
  moreover have "take 40 t = m" using t len by simp
  ultimately show ?thesis by simp
qed

text \<open>With a lookup that finds nothing, the synchronous resolver returns its input.\<close>

lemma resolveBlockRefs_unresolved:
  "resolveBlockRefs s (\<lambda>u. None) = s"
proof -
  have "replace_all BLOCK_REF_REGEX
       (\<lambda>m i s. let uuid' = take 36 (drop 2 m)
                in case (\<lambda>u. None :: LogseqBlock option) uuid' of
                     Some block \<Rightarrow> content block
                   | None \<Rightarrow> ''(('' @ uuid' @ ''))'') s 0 = drop 0 s"
  proof (rule replace_all_identity)
    show "BLOCK_REF_REGEX \<noteq> []" using BLOCK_REF_REGEX_length by auto
  next
    fix i assume "matches_here BLOCK_REF_REGEX (drop i s)"
    from block_ref_token [OF this]
    show "(let uuid' = take 36 (drop 2 (take (length BLOCK_REF_REGEX) (drop i s)))
          in case None of Some block \<Rightarrow> content block | None \<Rightarrow> ''(('' @ uuid' @ ''))'')
        = take (length BLOCK_REF_REGEX) (drop i s)"
      by (simp add: BLOCK_REF_REGEX_length)
  qed
  then show ?thesis by (simp add: resolveBlockRefs_def)
qed


text \<open>
  Claim C5. With a lookup that finds nothing, \<open>resolveBlockRefs\<close> returns a token written
  with upper-case digits unchanged, while \<open>resolveBlockRefsAsync\<close> rewrites it in lower
  case: the token is neither replaced by a block's content nor left as it was.
\<close>

theorem resolveBlockRefsAsync_rewrites_unresolved:
  "resolveBlockRefs ''((ABCDEF01-1111-1111-1111-111111111111))'' (\<lambda>u. None)
     = ''((ABCDEF01-1111-1111-1111-111111111111))'' \<and>
   resolveBlockRefsAsync ''((ABCDEF01-1111-1111-1111-111111111111))'' (\<lambda>u. None)
     = ''((abcdef01-1111-1111-1111-111111111111))''"
  by code_simp

section \<open>Properties of the parser\<close>

lemma set_children_sel [simp]:
  "uuid (set_children x cs) = uuid x" "content (set_children x cs) = content x"
  "level (set_children x cs) = level x" "properties (set_children x cs) = properties x"
  "children (set_children x cs) = cs" "parentUuid (set_children x cs) = parentUuid x"
  by (cases x; simp)+

lemma set_parentUuid_sel [simp]:
  "uuid (set_parentUuid x pu) = uuid x" "content (set_parentUuid x pu) = content x"
  "level (set_parentUuid x pu) = level x" "properties (set_parentUuid x pu) = properties x"
  "children (set_parentUuid x pu) = children x" "parentUuid (set_parentUuid x pu) = pu"
  by (cases x; simp)+

text \<open>
  The nesting invariant of a block: every child is deeper than the block and names the
  block as its parent, and so on below.
\<close>

fun well_nested :: "LogseqBlock \<Rightarrow> bool" where
  "well_nested (Block u c l ps cs pu sp m pr) =
     (\<forall>ch\<in>set cs. l < level ch \<and> parentUuid ch = Some u \<and> well_nested ch)"

lemma well_nested_iff:
  "well_nested x \<longleftrightarrow> (\<forall>ch\<in>set (children x). level x < level ch \<and> parentUuid ch = Some (uuid x) \<and> well_nested ch)"
  by (cases x) simp

lemma push_at_top_fields:
  "p \<noteq> [] \<Longrightarrow> map level (push_at p b bs) = map level bs \<and>
     map parentUuid (push_at p b bs) = map parentUuid bs \<and>
     map uuid (push_at p b bs) = map uuid bs"
  by (cases p) (auto simp: map_update list_update_same_conv)

lemma block_at_push_at:
  "block_at q bs = Some x \<Longrightarrow>
     \<exists>x'. block_at q (push_at p b bs) = Some x' \<and> level x' = level x \<and> uuid x' = uuid x"
proof (induction q arbitrary: p bs)
  case Nil
  then show ?case by simp
next
  case (Cons i q)
  from Cons.prems have i: "i < length bs" by (auto split: if_splits)
  show ?case
  proof (cases p)
    case Nil
    with Cons.prems i show ?thesis by (auto simp: nth_append split: if_splits)
  next
    case (Cons j p')
    show ?thesis
    proof (cases "j < length bs \<and> i = j")
      case True
      show ?thesis
      proof (cases "q = []")
        case True
        with Cons.prems \<open>j < length bs \<and> i = j\<close> Cons show ?thesis by auto
      next
        case False
        with Cons.prems i have "block_at q (children (bs ! i)) = Some x" by simp
        from Cons.IH [OF this, of p' ] False True Cons show ?thesis by auto
      qed
    next
      case False
      with Cons.prems i Cons show ?thesis by (auto split: if_splits)
    qed
  qed
qed

lemma block_at_new:
  "p = [] \<or> block_at p bs \<noteq> None \<Longrightarrow>
     block_at (p @ [length (array_at p bs)]) (push_at p b bs) = Some b"
proof (induction p arbitrary: bs)
  case Nil
  then show ?case by simp
next
  case (Cons i p)
  then have i: "i < length bs" by (auto split: if_splits)
  have "p = [] \<or> block_at p (children (bs ! i)) \<noteq> None"
    using Cons.prems i by (auto split: if_splits)
  from Cons.IH [OF this] i show ?case by simp
qed

lemma well_nested_push_at:
  assumes "\<forall>x\<in>set bs. well_nested x" and "block_at p bs = Some par"
    and "level par < level b" and "parentUuid b = Some (uuid par)" and "well_nested b"
  shows "\<forall>x\<in>set (push_at p b bs). well_nested x"
  using assms(1,2)
proof (induction p arbitrary: bs)
  case Nil
  then show ?case by simp
next
  case (Cons i p)
  then have i: "i < length bs" by (auto split: if_splits)
  let ?x = "bs ! i"
  have wx: "well_nested ?x" using Cons.prems(1) i by simp
  have "well_nested (set_children ?x (push_at p b (children ?x)))"
  proof (cases "p = []")
    case True
    with Cons.prems(2) i have "par = ?x" by simp
    with wx assms(3,4,5) True show ?thesis
      by (subst well_nested_iff) (auto simp: well_nested_iff [of ?x])
  next
    case False
    with Cons.prems(2) i have at: "block_at p (children ?x) = Some par" by simp
    have "\<forall>c\<in>set (children ?x). well_nested c" using wx by (auto simp: well_nested_iff [of ?x])
    from Cons.IH [OF this at] have new: "\<forall>x\<in>set (push_at p b (children ?x)). well_nested x" .
    have flds: "map level (push_at p b (children ?x)) = map level (children ?x)"
      "map parentUuid (push_at p b (children ?x)) = map parentUuid (children ?x)"
      using push_at_top_fields [OF False] by auto
    have len: "length (push_at p b (children ?x)) = length (children ?x)"
      using flds(1) by (metis length_map)
    have "\<forall>k<length (children ?x). level ?x < level (children ?x ! k) \<and> parentUuid (children ?x ! k) = Some (uuid ?x)"
      using wx by (auto simp: well_nested_iff [of ?x])
    then have "\<forall>k<length (children ?x). level ?x < level (push_at p b (children ?x) ! k) \<and>
       parentUuid (push_at p b (children ?x) ! k) = Some (uuid ?x)"
      using flds len by (metis nth_map)
    then show ?thesis using new len
      by (subst well_nested_iff) (auto simp: in_set_conv_nth)
  qed
  then show ?case using Cons.prems(1) i
    by (auto dest!: set_update_subset_insert [THEN subsetD])
qed


lemma visit_eq: "visit x = x # flattenBlocks (children x)"
  by (cases x) (simp add: flattenBlocks_def)

lemma flattenBlocks_simps [simp]:
  "flattenBlocks [] = []" "flattenBlocks (x # xs) = visit x @ flattenBlocks xs"
  "flattenBlocks (xs @ ys) = flattenBlocks xs @ flattenBlocks ys"
  by (simp_all add: flattenBlocks_def)

text \<open>
  A path is rightmost when it leads, at every step, to the last element of the array. The
  stack of \<open>buildBlockTree\<close> holds rightmost paths only, which is why a block pushed
  through the top of the stack is the last block of the traversal.
\<close>

fun rightmost :: "path \<Rightarrow> LogseqBlock list \<Rightarrow> bool" where
  "rightmost [] bs = True"
| "rightmost (i # p) bs = (bs \<noteq> [] \<and> i = length bs - 1 \<and> rightmost p (children (last bs)))"

text \<open>The fields of a block that come from its item.\<close>

definition core :: "LogseqBlock \<Rightarrow> string \<times> string \<times> nat \<times> props" where
  "core b = (uuid b, content b, level b, properties b)"

lemma core_set_children [simp]: "core (set_children x cs) = core x"
  by (simp add: core_def)

lemma core_set_parentUuid [simp]: "core (set_parentUuid x pu) = core x"
  by (simp add: core_def)

lemma push_at_last:
  assumes "bs \<noteq> []"
  shows "push_at ((length bs - 1) # p) b bs =
           butlast bs @ [set_children (last bs) (push_at p b (children (last bs)))]"
proof -
  from assms obtain xs x where bs: "bs = xs @ [x]" by (metis append_butlast_last_id)
  then show ?thesis by simp
qed

lemma flatten_push_at:
  "rightmost p bs \<Longrightarrow> children b = [] \<Longrightarrow>
     map core (flattenBlocks (push_at p b bs)) = map core (flattenBlocks bs) @ [core b]"
proof (induction p arbitrary: bs)
  case Nil
  then show ?case by (simp add: visit_eq)
next
  case (Cons i p)
  then have ne: "bs \<noteq> []" and i: "i = length bs - 1" and r: "rightmost p (children (last bs))"
    by auto
  from ne obtain xs x where bs: "bs = xs @ [x]" by (metis append_butlast_last_id)
  from Cons.IH [OF r Cons.prems(2)] bs i show ?case
    by (simp add: visit_eq)
qed

lemma rightmost_new:
  "rightmost p bs \<Longrightarrow> rightmost (p @ [length (array_at p bs)]) (push_at p b bs)"
proof (induction p arbitrary: bs)
  case Nil
  then show ?case by simp
next
  case (Cons i p)
  then have ne: "bs \<noteq> []" and i: "i = length bs - 1" and r: "rightmost p (children (last bs))"
    by auto
  from ne obtain xs x where bs: "bs = xs @ [x]" by (metis append_butlast_last_id)
  from Cons.IH [OF r] bs i show ?case by simp
qed

lemma rightmost_kept:
  "rightmost p bs \<Longrightarrow> rightmost q bs \<Longrightarrow> length q \<le> length p \<Longrightarrow> rightmost q (push_at p b bs)"
proof (induction q arbitrary: p bs)
  case Nil
  then show ?case by simp
next
  case (Cons i q)
  then obtain j p' where p: "p = j # p'" by (cases p) auto
  from Cons.prems p have ne: "bs \<noteq> []" and i: "i = length bs - 1" "j = length bs - 1"
    and r: "rightmost p' (children (last bs))" "rightmost q (children (last bs))"
    and len: "length q \<le> length p'"
    by auto
  from ne obtain xs x where bs: "bs = xs @ [x]" by (metis append_butlast_last_id)
  from Cons.IH [OF r len] bs i p show ?case by simp
qed

lemma rightmost_block_at: "rightmost p bs \<Longrightarrow> p \<noteq> [] \<Longrightarrow> block_at p bs \<noteq> None"
proof (induction p arbitrary: bs)
  case Nil
  then show ?case by simp
next
  case (Cons i p)
  then have ne: "bs \<noteq> []" and i: "i = length bs - 1" and r: "rightmost p (children (last bs))"
    by auto
  from ne obtain xs x where bs: "bs = xs @ [x]" by (metis append_butlast_last_id)
  from Cons.IH [OF r] bs i show ?case by auto
qed

lemma pop_stack_suffix: "\<exists>pre. st = pre @ pop_stack lvl st"
proof (induction st)
  case Nil
  then show ?case by simp
next
  case (Cons e st)
  obtain p l where e: "e = (p, l)" by (cases e)
  from Cons obtain pre where "st = pre @ pop_stack lvl st" by blast
  then have a: "e # st = (e # pre) @ pop_stack lvl st" by simp
  show ?case
  proof (cases "l \<ge> lvl")
    case True
    with a e show ?thesis by (metis pop_stack.simps(2))
  next
    case False
    with e have "e # st = [] @ pop_stack lvl (e # st)" by simp
    then show ?thesis by blast
  qed
qed

lemma pop_stack_top: "pop_stack lvl st = (p, l) # r \<Longrightarrow> l < lvl"
  by (induction st) (auto split: if_splits)

text \<open>The invariant of the loop of \<open>buildBlockTree\<close>.\<close>

definition stack_inv :: "LogseqBlock list \<Rightarrow> (path \<times> nat) list \<Rightarrow> bool" where
  "stack_inv bs st \<longleftrightarrow>
     (\<forall>e\<in>set st. fst e \<noteq> [] \<and> rightmost (fst e) bs \<and>
        (\<exists>b. block_at (fst e) bs = Some b \<and> level b = snd e)) \<and>
     sorted_wrt (\<lambda>a b. length (fst b) < length (fst a)) st"

definition build_inv :: "build_state \<Rightarrow> bool" where
  "build_inv st \<longleftrightarrow>
     stack_inv (blocks st) (stack st) \<and> (\<forall>x\<in>set (blocks st). parentUuid x = None \<and> well_nested x)"

lemma stack_inv_pop: "stack_inv bs st \<Longrightarrow> stack_inv bs (pop_stack lvl st)"
proof -
  assume a: "stack_inv bs st"
  obtain pre where pre: "st = pre @ pop_stack lvl st" using pop_stack_suffix by blast
  have "set (pop_stack lvl st) \<subseteq> set (pre @ pop_stack lvl st)" by simp
  then have sub: "set (pop_stack lvl st) \<subseteq> set st" using pre by simp
  have "sorted_wrt (\<lambda>a b. length (fst b) < length (fst a)) (pre @ pop_stack lvl st)"
    using a pre by (simp add: stack_inv_def)
  then have "sorted_wrt (\<lambda>a b. length (fst b) < length (fst a)) (pop_stack lvl st)"
    by (simp add: sorted_wrt_append)
  moreover have "\<forall>e\<in>set (pop_stack lvl st). fst e \<noteq> [] \<and> rightmost (fst e) bs \<and>
        (\<exists>b. block_at (fst e) bs = Some b \<and> level b = snd e)"
    using a sub unfolding stack_inv_def by (meson subsetD)
  ultimately show ?thesis unfolding stack_inv_def by simp
qed

text \<open>The identifier an item receives when \<open>n\<close> identifiers have been generated so far, and
  the number of identifiers generated after it.\<close>

definition item_core :: "string \<Rightarrow> item \<Rightarrow> string \<times> string \<times> nat \<times> props" where
  "item_core u it =
     (u, item_content it, item_level it, filter (\<lambda>(k, v). k \<noteq> ''id'') (item_properties it))"

definition item_uuid :: "(nat \<Rightarrow> string) \<Rightarrow> nat \<Rightarrow> item \<Rightarrow> string" where
  "item_uuid g n it = (case explicit_id (item_properties it) of Some s \<Rightarrow> s | None \<Rightarrow> g n)"

definition item_calls :: "nat \<Rightarrow> item \<Rightarrow> nat" where
  "item_calls n it = (case explicit_id (item_properties it) of Some s \<Rightarrow> n | None \<Rightarrow> n + 1)"

lemma build_step_inv:
  assumes "build_inv st"
  shows "build_inv (build_step g sp st it) \<and>
         map core (flattenBlocks (blocks (build_step g sp st it)))
           = map core (flattenBlocks (blocks st)) @ [item_core (item_uuid g (calls st) it) it] \<and>
         calls (build_step g sp st it) = item_calls (calls st) it"
proof -
  let ?lvl = "item_level it"
  let ?st' = "pop_stack ?lvl (stack st)"
  let ?bs = "blocks st"
  define task where "task = parseTaskFromContent (item_content it)"
  define blk where "blk = Block (item_uuid g (calls st) it) (item_content it) ?lvl
      (filter (\<lambda>(k, v). k \<noteq> ''id'') (item_properties it)) [] None sp (fst task) (snd task)"
  have si: "stack_inv ?bs ?st'" using assms stack_inv_pop by (simp add: build_inv_def)
  have nest: "\<forall>x\<in>set ?bs. parentUuid x = None \<and> well_nested x" using assms by (simp add: build_inv_def)
  have core_blk: "core blk = item_core (item_uuid g (calls st) it) it"
    by (simp add: core_def blk_def item_core_def)
  show ?thesis
  proof (cases ?st')
    case Nil
    then have eq: "build_step g sp st it =
        \<lparr>blocks = ?bs @ [blk], stack = [([length ?bs], ?lvl)], calls = item_calls (calls st) it\<rparr>"
      by (auto simp: build_step_def Let_def blk_def task_def item_uuid_def item_calls_def
          split: option.splits)
    have "stack_inv (?bs @ [blk]) [([length ?bs], ?lvl)]"
      by (simp add: stack_inv_def blk_def)
    moreover have "\<forall>x\<in>set (?bs @ [blk]). parentUuid x = None \<and> well_nested x"
      using nest by (auto simp: blk_def)
    ultimately show ?thesis using eq core_blk by (simp add: build_inv_def visit_eq blk_def)
  next
    case (Cons top r)
    obtain p l where top: "top = (p, l)" by (cases top)
    from si Cons top obtain par where p: "p \<noteq> []" "rightmost p ?bs"
      and par: "block_at p ?bs = Some par" "level par = l"
      and srt: "sorted_wrt (\<lambda>a b. length (fst b) < length (fst a)) ((p, l) # r)"
      and rest: "\<forall>e\<in>set r. fst e \<noteq> [] \<and> rightmost (fst e) ?bs \<and>
          (\<exists>b. block_at (fst e) ?bs = Some b \<and> level b = snd e)"
      by (auto simp: stack_inv_def)
    have l: "l < ?lvl" using pop_stack_top Cons top by blast
    let ?b = "set_parentUuid blk (Some (uuid par))"
    let ?new = "p @ [length (array_at p ?bs)]"
    have eq: "build_step g sp st it =
        \<lparr>blocks = push_at p ?b ?bs, stack = (?new, ?lvl) # (p, l) # r,
         calls = item_calls (calls st) it\<rparr>"
      using Cons top par
      by (auto simp: build_step_def Let_def blk_def task_def item_uuid_def item_calls_def
          split: option.splits)
    have ch: "children ?b = []" by (simp add: blk_def)
    have flat: "map core (flattenBlocks (push_at p ?b ?bs)) = map core (flattenBlocks ?bs) @ [core ?b]"
      by (rule flatten_push_at [OF p(2) ch])
    have new_at: "block_at ?new (push_at p ?b ?bs) = Some ?b"
      using block_at_new [of p ?bs ?b] par by simp
    have new_rm: "rightmost ?new (push_at p ?b ?bs)" by (rule rightmost_new [OF p(2)])
    have old: "q \<noteq> [] \<and> rightmost q (push_at p ?b ?bs) \<and>
        (\<exists>b. block_at q (push_at p ?b ?bs) = Some b \<and> level b = m)"
      if qm: "(q, m) \<in> set ((p, l) # r)" for q m
    proof -
      from qm rest p par have q: "q \<noteq> []" "rightmost q ?bs" "\<exists>b. block_at q ?bs = Some b \<and> level b = m"
        by force+
      from qm srt have "length q \<le> length p" by auto
      from rightmost_kept [OF p(2) q(2) this] have "rightmost q (push_at p ?b ?bs)" .
      moreover from q(3) block_at_push_at [of q ?bs _ p ?b]
      have "\<exists>b. block_at q (push_at p ?b ?bs) = Some b \<and> level b = m" by metis
      ultimately show ?thesis using q(1) by simp
    qed
    have srt': "sorted_wrt (\<lambda>a b. length (fst b) < length (fst a)) ((?new, ?lvl) # (p, l) # r)"
      using srt by auto
    have lvb: "level ?b = ?lvl" by (simp add: blk_def)
    have "fst e \<noteq> [] \<and> rightmost (fst e) (push_at p ?b ?bs) \<and>
        (\<exists>b. block_at (fst e) (push_at p ?b ?bs) = Some b \<and> level b = snd e)"
      if e: "e \<in> set ((?new, ?lvl) # (p, l) # r)" for e
    proof (cases "e = (?new, ?lvl)")
      case True
      then show ?thesis using new_at new_rm lvb by simp
    next
      case False
      with e have "(fst e, snd e) \<in> set ((p, l) # r)" by auto
      from old [OF this] show ?thesis .
    qed
    then have "stack_inv (push_at p ?b ?bs) ((?new, ?lvl) # (p, l) # r)"
      unfolding stack_inv_def using srt' by blast
    moreover have "\<forall>x\<in>set (push_at p ?b ?bs). well_nested x"
      by (rule well_nested_push_at [OF _ par(1)]) (use nest l par(2) in \<open>auto simp: blk_def\<close>)
    moreover have "\<forall>x\<in>set (push_at p ?b ?bs). parentUuid x = None"
    proof -
      have "map parentUuid (push_at p ?b ?bs) = map parentUuid ?bs"
        using push_at_top_fields [OF p(1)] by blast
      moreover have "\<forall>y\<in>set (map parentUuid ?bs). y = None" using nest by auto
      ultimately have "\<forall>y\<in>set (map parentUuid (push_at p ?b ?bs)). y = None" by simp
      then show ?thesis by auto
    qed
    ultimately show ?thesis using eq flat core_blk by (simp add: build_inv_def)
  qed
qed


fun item_cores :: "(nat \<Rightarrow> string) \<Rightarrow> nat \<Rightarrow> item list \<Rightarrow> (string \<times> string \<times> nat \<times> props) list" where
  "item_cores g n [] = []"
| "item_cores g n (it # its) = item_core (item_uuid g n it) it # item_cores g (item_calls n it) its"

fun calls_after :: "nat \<Rightarrow> item list \<Rightarrow> nat" where
  "calls_after n [] = n"
| "calls_after n (it # its) = calls_after (item_calls n it) its"

lemma item_cores_fields:
  "map (\<lambda>c. fst (snd c)) (item_cores g n its) = map item_content its"
  "map (\<lambda>c. fst (snd (snd c))) (item_cores g n its) = map item_level its"
  by (induction its arbitrary: n) (auto simp: item_core_def)

lemma build_fold:
  "build_inv st \<Longrightarrow>
     build_inv (foldl (build_step g sp) st its) \<and>
     map core (flattenBlocks (blocks (foldl (build_step g sp) st its)))
       = map core (flattenBlocks (blocks st)) @ item_cores g (calls st) its \<and>
     calls (foldl (build_step g sp) st its) = calls_after (calls st) its"
proof (induction its arbitrary: st)
  case Nil
  then show ?case by simp
next
  case (Cons it its)
  from build_step_inv [OF Cons.prems, of g sp it]
  have s: "build_inv (build_step g sp st it)"
    "map core (flattenBlocks (blocks (build_step g sp st it)))
       = map core (flattenBlocks (blocks st)) @ [item_core (item_uuid g (calls st) it) it]"
    "calls (build_step g sp st it) = item_calls (calls st) it"
    by auto
  from Cons.IH [OF s(1)] s(2,3) show ?case by simp
qed

lemma buildBlockTree_spec:
  assumes "buildBlockTree g n its sp = (bs, n')"
  shows "map core (flattenBlocks bs) = item_cores g n its" and "n' = calls_after n its"
    and "\<forall>x\<in>set bs. parentUuid x = None \<and> well_nested x"
proof -
  let ?st0 = "\<lparr>blocks = [], stack = [], calls = n\<rparr>"
  have "build_inv ?st0" by (simp add: build_inv_def stack_inv_def)
  from build_fold [OF this, of g sp its] assms
  show "map core (flattenBlocks bs) = item_cores g n its" and "n' = calls_after n its"
    and "\<forall>x\<in>set bs. parentUuid x = None \<and> well_nested x"
    by (auto simp: buildBlockTree_def Let_def build_inv_def)
qed

lemma well_nested_visit: "well_nested x \<Longrightarrow> b \<in> set (visit x) \<Longrightarrow> well_nested b"
proof (induction x)
  case (Block u c l ps cs pu sp m pr)
  then show ?case by auto
qed

lemma in_flattenBlocks: "b \<in> set (flattenBlocks bs) \<longleftrightarrow> (\<exists>x\<in>set bs. b \<in> set (visit x))"
  by (simp add: flattenBlocks_def)

text \<open>
  The order invariant of a forest. In an array of siblings, every block of the subtree of an
  earlier sibling is at least as deep as each later sibling; a block is ordered when its
  children are, and so on below. In the pre-order traversal of such a forest the blocks
  between a parent and one of its children are the subtrees of the child's earlier siblings,
  so none of them is shallower than the child.
\<close>

fun dominated :: "LogseqBlock list \<Rightarrow> bool" where
  "dominated [] = True"
| "dominated (x # cs) = ((\<forall>c\<in>set cs. \<forall>y\<in>set (visit x). level c \<le> level y) \<and> dominated cs)"

fun ordered :: "LogseqBlock \<Rightarrow> bool" where
  "ordered (Block u c l ps cs pu sp m pr) = (dominated cs \<and> (\<forall>ch\<in>set cs. ordered ch))"

text \<open>
  The stack of \<open>buildBlockTree\<close>, read from the top: each entry is shallower than the one
  above it, and every block below an entry is at least as deep as the entry above it (\<open>la\<close>
  is the level of the entry above); every block of the forest is at least as deep as the
  bottom entry. The block on top of the stack has no children yet.
\<close>

fun chain_ok :: "LogseqBlock list \<Rightarrow> nat \<Rightarrow> (path \<times> nat) list \<Rightarrow> bool" where
  "chain_ok bs la [] = (\<forall>y\<in>set (flattenBlocks bs). la \<le> level y)"
| "chain_ok bs la ((p, l) # st) =
     ((\<forall>y\<in>set (flattenBlocks (array_at p bs)). la \<le> level y) \<and> l < la \<and> chain_ok bs l st)"

definition dom_inv :: "build_state \<Rightarrow> bool" where
  "dom_inv st \<longleftrightarrow>
     dominated (blocks st) \<and> (\<forall>x\<in>set (blocks st). ordered x) \<and>
     (case stack st of
        [] \<Rightarrow> blocks st = []
      | (p, l) # r \<Rightarrow> array_at p (blocks st) = [] \<and> chain_ok (blocks st) l r)"

text \<open>A list of levels in which no level is more than one above the level before it.\<close>

fun no_skip :: "nat list \<Rightarrow> bool" where
  "no_skip (a # b # rest) = (b \<le> a + 1 \<and> no_skip (b # rest))"
| "no_skip [a] = True"
| "no_skip [] = True"

lemma ordered_iff: "ordered x \<longleftrightarrow> dominated (children x) \<and> (\<forall>ch\<in>set (children x). ordered ch)"
  by (cases x) simp

lemma dominated_append:
  "dominated (xs @ ys) \<longleftrightarrow>
     dominated xs \<and> dominated ys \<and> (\<forall>c\<in>set ys. \<forall>y\<in>set (flattenBlocks xs). level c \<le> level y)"
  by (induction xs) auto

lemma visit_childless: "children b = [] \<Longrightarrow> visit b = [b]"
  by (simp add: visit_eq)

lemma flatten_update_levels:
  assumes "i < length bs"
  shows "level ` set (flattenBlocks (bs[i := x])) \<subseteq> level ` set (visit x) \<union> level ` set (flattenBlocks bs)"
proof -
  have sub: "set (bs[i := x]) \<subseteq> insert x (set bs)" by (rule set_update_subset_insert)
  have "y \<in> set (visit x) \<union> set (flattenBlocks bs)" if "y \<in> set (flattenBlocks (bs[i := x]))" for y
  proof -
    from that obtain z where z: "z \<in> set (bs[i := x])" "y \<in> set (visit z)"
      by (auto simp: in_flattenBlocks)
    from z(1) sub have "z = x \<or> z \<in> set bs" by blast
    with z(2) show ?thesis by (auto simp: in_flattenBlocks)
  qed
  then show ?thesis by blast
qed

lemma push_at_levels:
  "children b = [] \<Longrightarrow>
     level ` set (flattenBlocks (push_at p b bs)) \<subseteq> insert (level b) (level ` set (flattenBlocks bs))"
proof (induction p arbitrary: bs)
  case Nil
  then show ?case by (auto simp: visit_childless)
next
  case (Cons i p)
  show ?case
  proof (cases "i < length bs")
    case False
    then show ?thesis by auto
  next
    case True
    let ?x = "bs ! i"
    let ?x' = "set_children ?x (push_at p b (children ?x))"
    have x: "?x \<in> set bs" using True by simp
    have vs: "set (visit ?x) \<subseteq> set (flattenBlocks bs)"
    proof
      fix y assume "y \<in> set (visit ?x)"
      with x show "y \<in> set (flattenBlocks bs)" unfolding in_flattenBlocks by blast
    qed
    have "visit ?x = ?x # flattenBlocks (children ?x)" by (rule visit_eq)
    with vs have sub: "level ` set (flattenBlocks (children ?x)) \<subseteq> level ` set (flattenBlocks bs)"
      and lx: "level ?x \<in> level ` set (flattenBlocks bs)" by auto
    have "level ` set (visit ?x') \<subseteq> insert (level b) (level ` set (flattenBlocks bs))"
      using Cons.IH [OF Cons.prems, of "children ?x"] sub lx
      by (auto simp: visit_eq [of ?x'])
    with flatten_update_levels [OF True, of ?x'] True show ?thesis by auto
  qed
qed

lemma array_at_push_at_levels:
  "children b = [] \<Longrightarrow>
     level ` set (flattenBlocks (array_at q (push_at p b bs)))
       \<subseteq> insert (level b) (level ` set (flattenBlocks (array_at q bs)))"
proof (induction q arbitrary: p bs)
  case Nil
  then show ?case using push_at_levels by simp
next
  case (Cons j q)
  show ?case
  proof (cases p)
    case Nil
    have "array_at q [] = []" by (cases q) auto
    with Nil Cons.prems show ?thesis by (auto simp: nth_append)
  next
    case (Cons i p')
    show ?thesis
    proof (cases "i < length bs \<and> j = i")
      case True
      with Cons Cons.IH [OF Cons.prems, of p' "children (bs ! i)"] show ?thesis by simp
    next
      case False
      with Cons show ?thesis by auto
    qed
  qed
qed

lemma array_at_new:
  "p = [] \<or> block_at p bs \<noteq> None \<Longrightarrow>
     array_at (p @ [length (array_at p bs)]) (push_at p b bs) = children b"
proof (induction p arbitrary: bs)
  case Nil
  then show ?case by simp
next
  case (Cons i p)
  then have i: "i < length bs" by (auto split: if_splits)
  have "p = [] \<or> block_at p (children (bs ! i)) \<noteq> None"
    using Cons.prems i by (auto split: if_splits)
  from Cons.IH [OF this] i show ?case by simp
qed

lemma chain_ok_pop: "chain_ok bs la st \<Longrightarrow> v \<le> la \<Longrightarrow> chain_ok bs v (pop_stack v st)"
proof (induction st arbitrary: la)
  case Nil
  then show ?case by auto
next
  case (Cons e st)
  obtain p l where e: "e = (p, l)" by (cases e)
  show ?case
  proof (cases "l \<ge> v")
    case True
    from Cons.prems e have "chain_ok bs l st" by simp
    from Cons.IH [OF this True] True e show ?thesis by simp
  next
    case False
    with Cons.prems e show ?thesis by auto
  qed
qed

lemma chain_ok_push:
  "chain_ok bs la st \<Longrightarrow> la \<le> level b \<Longrightarrow> children b = [] \<Longrightarrow> chain_ok (push_at p b bs) la st"
proof (induction st arbitrary: la)
  case Nil
  have "level ` set (flattenBlocks (push_at p b bs)) \<subseteq> insert (level b) (level ` set (flattenBlocks bs))"
    using push_at_levels [OF Nil.prems(3)] .
  moreover have "\<forall>v\<in>insert (level b) (level ` set (flattenBlocks bs)). la \<le> v"
    using Nil.prems by simp
  ultimately have "\<forall>v\<in>level ` set (flattenBlocks (push_at p b bs)). la \<le> v" by blast
  then show ?case by simp
next
  case (Cons e st)
  obtain q l where e: "e = (q, l)" by (cases e)
  from Cons.prems e have a: "\<forall>y\<in>set (flattenBlocks (array_at q bs)). la \<le> level y"
    and l: "l < la" and c: "chain_ok bs l st" by auto
  from l Cons.prems(2) have "l \<le> level b" by simp
  from Cons.IH [OF c this Cons.prems(3)] have c': "chain_ok (push_at p b bs) l st" .
  have "level ` set (flattenBlocks (array_at q (push_at p b bs)))
       \<subseteq> insert (level b) (level ` set (flattenBlocks (array_at q bs)))"
    using array_at_push_at_levels [OF Cons.prems(3)] .
  moreover have "\<forall>v\<in>insert (level b) (level ` set (flattenBlocks (array_at q bs))). la \<le> v"
    using a Cons.prems(2) by simp
  ultimately have "\<forall>v\<in>level ` set (flattenBlocks (array_at q (push_at p b bs))). la \<le> v" by blast
  with c' l e show ?case by simp
qed

lemma ordered_push_at:
  assumes "children b = []"
  shows "dominated bs \<Longrightarrow> \<forall>x\<in>set bs. ordered x \<Longrightarrow> rightmost p bs \<Longrightarrow>
     \<forall>y\<in>set (flattenBlocks (array_at p bs)). level b \<le> level y \<Longrightarrow>
     dominated (push_at p b bs) \<and> (\<forall>x\<in>set (push_at p b bs). ordered x)"
proof (induction p arbitrary: bs)
  case Nil
  have "ordered b" using assms by (simp add: ordered_iff [of b])
  with Nil show ?case by (simp add: dominated_append)
next
  case (Cons i p)
  then have ne: "bs \<noteq> []" and i: "i = length bs - 1" and r: "rightmost p (children (last bs))"
    by auto
  from ne obtain xs x where bs: "bs = xs @ [x]" by (metis append_butlast_last_id)
  from Cons.prems(2) bs have ox: "ordered x" by simp
  then have dx: "dominated (children x)" "\<forall>ch\<in>set (children x). ordered ch"
    by (simp_all add: ordered_iff [of x])
  from Cons.prems(4) bs i have "\<forall>y\<in>set (flattenBlocks (array_at p (children x))). level b \<le> level y"
    by simp
  from Cons.IH [OF dx _ this] r bs
  have new: "dominated (push_at p b (children x))" "\<forall>ch\<in>set (push_at p b (children x)). ordered ch"
    by simp_all
  let ?x' = "set_children x (push_at p b (children x))"
  have ox': "ordered ?x'" using new by (simp add: ordered_iff [of ?x'])
  have eq: "push_at (i # p) b bs = xs @ [?x']" using bs i by simp
  from Cons.prems(1) bs have "dominated (xs @ [?x'])" by (simp add: dominated_append)
  with ox' Cons.prems(2) bs show ?case unfolding eq by simp
qed

lemma chain_ok_after_pop:
  assumes "dom_inv st"
  shows "chain_ok (blocks st) v (pop_stack v (stack st))"
proof (cases "stack st")
  case Nil
  with assms show ?thesis by (simp add: dom_inv_def)
next
  case (Cons e r)
  obtain p l where e: "e = (p, l)" by (cases e)
  from assms Cons e have a: "array_at p (blocks st) = []" "chain_ok (blocks st) l r"
    by (simp_all add: dom_inv_def)
  show ?thesis
  proof (cases "l \<ge> v")
    case True
    from chain_ok_pop [OF a(2) True] True Cons e show ?thesis by simp
  next
    case False
    with a Cons e show ?thesis by simp
  qed
qed

lemma build_step_dom:
  assumes "build_inv st" and "dom_inv st"
  shows "dom_inv (build_step g sp st it)"
proof -
  let ?lvl = "item_level it"
  let ?st' = "pop_stack ?lvl (stack st)"
  let ?bs = "blocks st"
  define task where "task = parseTaskFromContent (item_content it)"
  define blk where "blk = Block (item_uuid g (calls st) it) (item_content it) ?lvl
      (filter (\<lambda>(k, v). k \<noteq> ''id'') (item_properties it)) [] None sp (fst task) (snd task)"
  have si: "stack_inv ?bs ?st'" using assms(1) stack_inv_pop by (simp add: build_inv_def)
  have dom: "dominated ?bs" "\<forall>x\<in>set ?bs. ordered x" using assms(2) by (simp_all add: dom_inv_def)
  have ck: "chain_ok ?bs ?lvl ?st'" by (rule chain_ok_after_pop [OF assms(2)])
  show ?thesis
  proof (cases ?st')
    case Nil
    then have eq: "build_step g sp st it =
        \<lparr>blocks = ?bs @ [blk], stack = [([length ?bs], ?lvl)], calls = item_calls (calls st) it\<rparr>"
      by (auto simp: build_step_def Let_def blk_def task_def item_uuid_def item_calls_def
          split: option.splits)
    from ck Nil have all: "\<forall>y\<in>set (flattenBlocks ?bs). ?lvl \<le> level y" by simp
    have lb: "level blk = ?lvl" "children blk = []" by (simp_all add: blk_def)
    have "dominated (?bs @ [blk])" using dom(1) all lb by (simp add: dominated_append)
    moreover have "\<forall>x\<in>set (?bs @ [blk]). ordered x" using dom(2) lb by (auto simp: ordered_iff [of blk])
    moreover have "array_at [length ?bs] (?bs @ [blk]) = []" using lb by simp
    moreover have "chain_ok (?bs @ [blk]) ?lvl []" using all lb by (auto simp: visit_childless)
    ultimately show ?thesis unfolding eq by (simp add: dom_inv_def)
  next
    case (Cons top r)
    obtain p l where top: "top = (p, l)" by (cases top)
    from si Cons top obtain par where p: "p \<noteq> []" "rightmost p ?bs"
      and par: "block_at p ?bs = Some par" "level par = l"
      by (auto simp: stack_inv_def)
    let ?b = "set_parentUuid blk (Some (uuid par))"
    let ?new = "p @ [length (array_at p ?bs)]"
    have eq: "build_step g sp st it =
        \<lparr>blocks = push_at p ?b ?bs, stack = (?new, ?lvl) # (p, l) # r,
         calls = item_calls (calls st) it\<rparr>"
      using Cons top par
      by (auto simp: build_step_def Let_def blk_def task_def item_uuid_def item_calls_def
          split: option.splits)
    have lb: "level ?b = ?lvl" "children ?b = []" by (simp_all add: blk_def)
    from ck Cons top have below: "\<forall>y\<in>set (flattenBlocks (array_at p ?bs)). level ?b \<le> level y"
      and ck': "chain_ok ?bs ?lvl ((p, l) # r)" using lb by simp_all
    from ordered_push_at [OF lb(2) dom p(2) below]
    have "dominated (push_at p ?b ?bs)" "\<forall>x\<in>set (push_at p ?b ?bs). ordered x" by simp_all
    moreover have "array_at ?new (push_at p ?b ?bs) = []"
      using array_at_new [of p ?bs ?b] par lb by simp
    moreover have "chain_ok (push_at p ?b ?bs) ?lvl ((p, l) # r)"
      by (rule chain_ok_push [OF ck' _ lb(2)]) (simp add: blk_def)
    ultimately show ?thesis unfolding eq by (simp add: dom_inv_def)
  qed
qed

lemma build_fold_dom:
  "build_inv st \<Longrightarrow> dom_inv st \<Longrightarrow> dom_inv (foldl (build_step g sp) st its)"
proof (induction its arbitrary: st)
  case Nil
  then show ?case by simp
next
  case (Cons it its)
  from build_step_inv [OF Cons.prems(1), of g sp it] have "build_inv (build_step g sp st it)" by simp
  from Cons.IH [OF this build_step_dom [OF Cons.prems]] show ?case by simp
qed

lemma buildBlockTree_ordered:
  assumes "buildBlockTree g n its sp = (bs, n')"
  shows "dominated bs" and "\<forall>x\<in>set bs. ordered x"
proof -
  let ?st0 = "\<lparr>blocks = [], stack = [], calls = n\<rparr>"
  have "build_inv ?st0" by (simp add: build_inv_def stack_inv_def)
  moreover have "dom_inv ?st0" by (simp add: dom_inv_def)
  ultimately have "dom_inv (foldl (build_step g sp) ?st0 its)" by (rule build_fold_dom)
  with assms show "dominated bs" and "\<forall>x\<in>set bs. ordered x"
    by (auto simp: buildBlockTree_def Let_def dom_inv_def)
qed

lemma visit_parent_nearest:
  "ordered x \<Longrightarrow> b \<in> set (visit x) \<Longrightarrow> c \<in> set (children b) \<Longrightarrow>
     \<exists>xs ys zs. visit x = xs @ b # ys @ c # zs \<and> (\<forall>y\<in>set ys. level c \<le> level y)"
proof (induction x)
  case (Block u ct l ps cs pu sp m pr)
  let ?x = "Block u ct l ps cs pu sp m pr"
  show ?case
  proof (cases "b = ?x")
    case True
    with Block.prems(3) obtain l1 l2 where cs: "cs = l1 @ c # l2" by (auto simp: in_set_conv_decomp)
    from Block.prems(1) cs have "\<forall>y\<in>set (flattenBlocks l1). level c \<le> level y"
      by (simp add: dominated_append)
    moreover have "visit ?x = [] @ b # flattenBlocks l1 @ c # (flattenBlocks (children c) @ flattenBlocks l2)"
      using True cs by (simp add: visit_eq [of c] flattenBlocks_def)
    ultimately show ?thesis by blast
  next
    case False
    with Block.prems(2) obtain ch where ch: "ch \<in> set cs" "b \<in> set (visit ch)" by auto
    from Block.prems(1) ch(1) have "ordered ch" by simp
    from Block.IH [OF ch(1) this ch(2) Block.prems(3)]
    obtain xs ys zs where v: "visit ch = xs @ b # ys @ c # zs" "\<forall>y\<in>set ys. level c \<le> level y" by blast
    from ch(1) obtain l1 l2 where "cs = l1 @ ch # l2" by (auto simp: in_set_conv_decomp)
    then have "visit ?x = (?x # flattenBlocks l1 @ xs) @ b # ys @ c # (zs @ flattenBlocks l2)"
      using v(1) by (simp add: flattenBlocks_def)
    with v(2) show ?thesis by blast
  qed
qed

lemma flatten_parent_nearest:
  assumes "\<forall>x\<in>set bs. ordered x" and "b \<in> set (flattenBlocks bs)" and "c \<in> set (children b)"
  shows "\<exists>xs ys zs. flattenBlocks bs = xs @ b # ys @ c # zs \<and> (\<forall>y\<in>set ys. level c \<le> level y)"
proof -
  from assms(2) obtain x where x: "x \<in> set bs" "b \<in> set (visit x)"
    by (auto simp: in_flattenBlocks)
  from assms(1) x(1) have "ordered x" by simp
  from visit_parent_nearest [OF this x(2) assms(3)]
  obtain xs ys zs where v: "visit x = xs @ b # ys @ c # zs" "\<forall>y\<in>set ys. level c \<le> level y" by blast
  from x(1) obtain l1 l2 where "bs = l1 @ x # l2" by (auto simp: in_set_conv_decomp)
  then have "flattenBlocks bs = (flattenBlocks l1 @ xs) @ b # ys @ c # (zs @ flattenBlocks l2)"
    using v(1) by simp
  with v(2) show ?thesis by blast
qed

lemma flatten_root_first:
  assumes "dominated bs" and "r \<in> set bs"
  shows "\<exists>xs zs. flattenBlocks bs = xs @ r # zs \<and> (\<forall>y\<in>set xs. level r \<le> level y)"
proof -
  from assms(2) obtain l1 l2 where bs: "bs = l1 @ r # l2" by (auto simp: in_set_conv_decomp)
  with assms(1) have "\<forall>y\<in>set (flattenBlocks l1). level r \<le> level y"
    by (simp add: dominated_append)
  moreover have "flattenBlocks bs = flattenBlocks l1 @ r # (flattenBlocks (children r) @ flattenBlocks l2)"
    using bs by (simp add: visit_eq [of r])
  ultimately show ?thesis by blast
qed

lemma no_skip_mid: "no_skip (xs @ a # b # rest) \<Longrightarrow> b \<le> a + 1"
proof (induction xs)
  case Nil
  then show ?case by simp
next
  case (Cons x xs)
  then show ?case by (cases xs) auto
qed

lemma parent_one_above:
  assumes "no_skip (map level fl)" and "fl = xs @ b # ys @ c # zs"
    and "\<forall>y\<in>set ys. level c \<le> level y" and "level b < level c"
  shows "level c = level b + 1"
proof (cases ys)
  case Nil
  with assms(1,2) have "no_skip (map level xs @ level b # level c # map level zs)" by simp
  from no_skip_mid [OF this] assms(4) show ?thesis by simp
next
  case (Cons y ys')
  with assms(1,2) have "no_skip (map level xs @ level b # level y # map level (ys' @ c # zs))" by simp
  from no_skip_mid [OF this] have "level y \<le> level b + 1" .
  moreover from assms(3) Cons have "level c \<le> level y" by simp
  ultimately show ?thesis using assms(4) by simp
qed

text \<open>A generator for the examples: it returns version-4 identifiers.\<close>

definition example_uuidv4 :: "nat \<Rightarrow> string" where
  "example_uuidv4 n =
     (if n = 0 then ''0f1e2d3c-0000-4000-8000-000000000000''
      else if n = 1 then ''0f1e2d3c-0000-4000-8000-000000000001''
      else ''0f1e2d3c-0000-4000-8000-000000000002'')"

text \<open>
  Claim C2, as amended. In every forest returned by \<open>parseBlocks\<close> the pre-order traversal
  \<open>flattenBlocks\<close> lists the blocks in the order of the text, each with the level of its
  item. A root has no \<open>parentUuid\<close> and no block before it is shallower than it. The parent
  of a child is the nearest block before it that is shallower: the parent comes before the
  child, its level is strictly smaller, every block between the two is at least as deep as
  the child, and the child carries the parent's \<open>uuid\<close> as \<open>parentUuid\<close>. The parent's level
  is the child's level minus 1 when no block of the text is more than one level deeper than
  the block before it.
\<close>

theorem parse_parent_levels:
  assumes "parseBlocks uuidv4 n text sp = (bs, n')"
  shows "map level (flattenBlocks bs) = map item_level (parse_lines (split_nl text)) \<and>
         (\<forall>r\<in>set bs. parentUuid r = None \<and>
            (\<exists>xs zs. flattenBlocks bs = xs @ r # zs \<and> (\<forall>y\<in>set xs. level r \<le> level y))) \<and>
         (\<forall>b\<in>set (flattenBlocks bs). \<forall>c\<in>set (children b).
            level b < level c \<and> parentUuid c = Some (uuid b) \<and>
            (\<exists>xs ys zs. flattenBlocks bs = xs @ b # ys @ c # zs \<and>
               (\<forall>y\<in>set ys. level c \<le> level y)) \<and>
            (no_skip (map item_level (parse_lines (split_nl text))) \<longrightarrow> level c = level b + 1))"
proof -
  let ?its = "parse_lines (split_nl text)"
  from assms have bt: "buildBlockTree uuidv4 n ?its sp = (bs, n')" by (simp add: parseBlocks_def)
  from buildBlockTree_spec(3) [OF bt] have nested: "\<forall>x\<in>set bs. parentUuid x = None \<and> well_nested x" .
  from buildBlockTree_ordered [OF bt] have ord: "dominated bs" "\<forall>x\<in>set bs. ordered x" .
  have "map (\<lambda>c. fst (snd (snd c))) (map core (flattenBlocks bs)) = map item_level ?its"
    unfolding buildBlockTree_spec(1) [OF bt] by (rule item_cores_fields(2))
  then have levels: "map level (flattenBlocks bs) = map item_level ?its"
    by (simp add: core_def comp_def)
  have roots: "parentUuid r = None \<and>
      (\<exists>xs zs. flattenBlocks bs = xs @ r # zs \<and> (\<forall>y\<in>set xs. level r \<le> level y))"
    if "r \<in> set bs" for r
    using nested flatten_root_first [OF ord(1) that] that by simp
  have inner: "level b < level c \<and> parentUuid c = Some (uuid b) \<and>
        (\<exists>xs ys zs. flattenBlocks bs = xs @ b # ys @ c # zs \<and> (\<forall>y\<in>set ys. level c \<le> level y)) \<and>
        (no_skip (map item_level ?its) \<longrightarrow> level c = level b + 1)"
    if b: "b \<in> set (flattenBlocks bs)" and c: "c \<in> set (children b)" for b c
  proof -
    from b obtain x where "x \<in> set bs" "b \<in> set (visit x)" by (auto simp: in_flattenBlocks)
    with nested have "well_nested b" using well_nested_visit by blast
    with c have lt: "level b < level c" and pu: "parentUuid c = Some (uuid b)"
      by (auto simp: well_nested_iff [of b])
    from flatten_parent_nearest [OF ord(2) b c]
    obtain xs ys zs where d: "flattenBlocks bs = xs @ b # ys @ c # zs"
      "\<forall>y\<in>set ys. level c \<le> level y" by blast
    have "level c = level b + 1" if "no_skip (map item_level ?its)"
    proof -
      from that levels have "no_skip (map level (flattenBlocks bs))" by simp
      from parent_one_above [OF this d lt] show ?thesis .
    qed
    with lt pu d show ?thesis by blast
  qed
  from levels roots inner show ?thesis by blast
qed

theorem parse_parent_levels_witness:
  "parseBlocks example_uuidv4 0 (''- a'' @ [CHR 0x0A, CHR 0x09] @ ''- b'') ''p.md'' =
     ([Block ''0f1e2d3c-0000-4000-8000-000000000000'' ''a'' 0 []
         [Block ''0f1e2d3c-0000-4000-8000-000000000001'' ''b'' 1 [] []
            (Some ''0f1e2d3c-0000-4000-8000-000000000000'') ''p.md'' None None]
         None ''p.md'' None None], 2) \<and>
   no_skip (map item_level (parse_lines (split_nl (''- a'' @ [CHR 0x0A, CHR 0x09] @ ''- b'')))) \<and>
   level (Block ''0f1e2d3c-0000-4000-8000-000000000000'' ''a'' 0 []
         [Block ''0f1e2d3c-0000-4000-8000-000000000001'' ''b'' 1 [] []
            (Some ''0f1e2d3c-0000-4000-8000-000000000000'') ''p.md'' None None]
         None ''p.md'' None None)
     < level (Block ''0f1e2d3c-0000-4000-8000-000000000001'' ''b'' 1 [] []
            (Some ''0f1e2d3c-0000-4000-8000-000000000000'') ''p.md'' None None) \<and>
   parentUuid (Block ''0f1e2d3c-0000-4000-8000-000000000001'' ''b'' 1 [] []
            (Some ''0f1e2d3c-0000-4000-8000-000000000000'') ''p.md'' None None)
     = Some ''0f1e2d3c-0000-4000-8000-000000000000'' \<and>
   level (Block ''0f1e2d3c-0000-4000-8000-000000000001'' ''b'' 1 [] []
            (Some ''0f1e2d3c-0000-4000-8000-000000000000'') ''p.md'' None None)
     = level (Block ''0f1e2d3c-0000-4000-8000-000000000000'' ''a'' 0 []
         [Block ''0f1e2d3c-0000-4000-8000-000000000001'' ''b'' 1 [] []
            (Some ''0f1e2d3c-0000-4000-8000-000000000000'') ''p.md'' None None]
         None ''p.md'' None None) + 1"
proof -
  let ?B = "Block ''0f1e2d3c-0000-4000-8000-000000000001'' ''b'' 1 [] []
            (Some ''0f1e2d3c-0000-4000-8000-000000000000'') ''p.md'' None None"
  let ?A = "Block ''0f1e2d3c-0000-4000-8000-000000000000'' ''a'' 0 [] [?B] None ''p.md'' None None"
  let ?text = "''- a'' @ [CHR 0x0A, CHR 0x09] @ ''- b''"
  have e: "parseBlocks example_uuidv4 0 ?text ''p.md'' = ([?A], 2)"
    by code_simp
  have ns: "no_skip (map item_level (parse_lines (split_nl ?text)))"
    by code_simp
  have "?A \<in> set (flattenBlocks [?A])" and "?B \<in> set (children ?A)"
    by (simp_all add: flattenBlocks_def)
  with parse_parent_levels [OF e] ns
  have "level ?A < level ?B \<and> parentUuid ?B = Some (uuid ?A) \<and> level ?B = level ?A + 1" by blast
  with e ns show ?thesis by simp
qed

text \<open>
  Claim C2 as stated fails: a block indented by two tabs under a block of level 0 becomes
  its child with level 2, so the parent's level is not the child's level minus 1.
\<close>

theorem parse_skipped_level_counterexample:
  "parseBlocks example_uuidv4 0 (''- a'' @ [CHR 0x0A, CHR 0x09, CHR 0x09] @ ''- b'') ''p.md'' =
     ([Block ''0f1e2d3c-0000-4000-8000-000000000000'' ''a'' 0 []
         [Block ''0f1e2d3c-0000-4000-8000-000000000001'' ''b'' 2 [] []
            (Some ''0f1e2d3c-0000-4000-8000-000000000000'') ''p.md'' None None]
         None ''p.md'' None None], 2)"
  by code_simp


lemma item_cores_length [simp]: "length (item_cores g n its) = length its"
  by (induction its arbitrary: n) auto

lemma item_cores_nth:
  "i < length its \<Longrightarrow>
     item_cores g n its ! i = item_core (item_uuid g (calls_after n (take i its)) (its ! i)) (its ! i)"
proof (induction its arbitrary: n i)
  case Nil
  then show ?case by simp
next
  case (Cons it its)
  then show ?case by (cases i) auto
qed

lemma explicit_id_valid: "explicit_id ps = Some s \<Longrightarrow> UUID_REGEX_test s"
  by (auto simp: explicit_id_def split: option.splits prop_value.splits if_splits)

lemma lowercase_uuid_valid: "is_lowercase_uuid s \<Longrightarrow> UUID_REGEX_test s"
proof -
  assume "is_lowercase_uuid s"
  then have "list_all2 holds (uuid_pattern hex_i) s"
    by (intro all2_pattern_mono [OF uuid_pattern_mono lowercase_uuid_all2]) (auto intro: hex_lower_imp_hex_i)
  from match_pattern_all2 [OF this, of "[]"] show ?thesis by (simp add: UUID_REGEX_test_def)
qed

text \<open>
  Claim C4, as amended. The blocks of a parse are, in pre-order, the items read from the
  text. A block's \<open>uuid\<close> is the value of its item's \<open>id\<close> property when that value is a string
  that matches the identifier pattern in either case, and the next identifier of the
  generator otherwise; in particular it is the \<open>id\<close> value whenever that is a lower-case
  identifier. When the generator returns identifiers that match the pattern, so does the
  \<open>uuid\<close> of every block, in either case.
\<close>

theorem parse_uuid_assignment:
  assumes "parseBlocks uuidv4 n text sp = (bs, n')" and "\<forall>k. UUID_REGEX_test (uuidv4 k)"
  shows "length (flattenBlocks bs) = length (parse_lines (split_nl text)) \<and>
         (\<forall>i<length (parse_lines (split_nl text)).
            uuid (flattenBlocks bs ! i) =
              (case explicit_id (item_properties (parse_lines (split_nl text) ! i)) of
                 Some s \<Rightarrow> s
               | None \<Rightarrow> uuidv4 (calls_after n (take i (parse_lines (split_nl text))))) \<and>
            (\<forall>s. map_of (item_properties (parse_lines (split_nl text) ! i)) ''id'' = Some (PString s) \<and>
                 is_lowercase_uuid s \<longrightarrow> uuid (flattenBlocks bs ! i) = s) \<and>
            UUID_REGEX_test (uuid (flattenBlocks bs ! i)))"
proof -
  let ?its = "parse_lines (split_nl text)"
  from assms(1) have c: "map core (flattenBlocks bs) = item_cores uuidv4 n ?its"
    unfolding parseBlocks_def by (rule buildBlockTree_spec(1))
  then have len: "length (flattenBlocks bs) = length ?its"
    by (metis item_cores_length length_map)
  have per: "uuid (flattenBlocks bs ! i) = item_uuid uuidv4 (calls_after n (take i ?its)) (?its ! i)"
    if i: "i < length ?its" for i
  proof -
    have "core (flattenBlocks bs ! i) = item_cores uuidv4 n ?its ! i"
      using c i len by (metis nth_map)
    then show ?thesis using item_cores_nth [OF i] by (simp add: core_def item_core_def)
  qed
  have "uuid (flattenBlocks bs ! i) =
              (case explicit_id (item_properties (?its ! i)) of
                 Some s \<Rightarrow> s
               | None \<Rightarrow> uuidv4 (calls_after n (take i ?its))) \<and>
            (\<forall>s. map_of (item_properties (?its ! i)) ''id'' = Some (PString s) \<and>
                 is_lowercase_uuid s \<longrightarrow> uuid (flattenBlocks bs ! i) = s) \<and>
            UUID_REGEX_test (uuid (flattenBlocks bs ! i))"
    if i: "i < length ?its" for i
  proof -
    note u = per [OF i]
    have 1: "uuid (flattenBlocks bs ! i) =
              (case explicit_id (item_properties (?its ! i)) of
                 Some s \<Rightarrow> s
               | None \<Rightarrow> uuidv4 (calls_after n (take i ?its)))"
      using u by (simp add: item_uuid_def)
    have 2: "uuid (flattenBlocks bs ! i) = s"
      if "map_of (item_properties (?its ! i)) ''id'' = Some (PString s)" "is_lowercase_uuid s" for s
      using that 1 lowercase_uuid_valid by (simp add: explicit_id_def)
    have 3: "UUID_REGEX_test (uuid (flattenBlocks bs ! i))"
      using 1 assms(2) explicit_id_valid by (auto split: option.splits)
    from 1 2 3 show ?thesis by blast
  qed
  with len show ?thesis by blast
qed

text \<open>
  Claim C3. In the scenario of the specification the \<open>id\<close> lines are indented by two
  spaces beyond the tabs of their block, so they count no more tabs than the block and
  end the property loop: the forest has the expected shape, levels and parent link, but
  both identifiers come from the generator, not from the \<open>id\<close> lines.
\<close>

theorem parse_scenario_generates_ids:
  "parseBlocks uuidv4 0
     (''- Parent block'' @ [CHR 0x0A] @
      ''  id:: 11111111-1111-1111-1111-111111111111'' @ [CHR 0x0A, CHR 0x09] @
      ''- Child block'' @ [CHR 0x0A, CHR 0x09] @
      ''  id:: 22222222-2222-2222-2222-222222222222'') sp =
   ([Block (uuidv4 0) ''Parent block'' 0 []
       [Block (uuidv4 1) ''Child block'' 1 [] [] (Some (uuidv4 0)) sp None None]
       None sp None None], 2)"
  by code_simp


lemma example_uuidv4_valid: "UUID_REGEX_test (example_uuidv4 k)"
proof -
  have "UUID_REGEX_test ''0f1e2d3c-0000-4000-8000-000000000000''"
    "UUID_REGEX_test ''0f1e2d3c-0000-4000-8000-000000000001''"
    "UUID_REGEX_test ''0f1e2d3c-0000-4000-8000-000000000002''"
    by code_simp+
  then show ?thesis by (simp add: example_uuidv4_def)
qed

theorem parse_uuid_assignment_witness:
  "(\<forall>k. UUID_REGEX_test (example_uuidv4 k)) \<and>
   parseBlocks example_uuidv4 0
     (''- a'' @ [CHR 0x0A, CHR 0x09] @ ''id:: 11111111-1111-1111-1111-111111111111'' @
      [CHR 0x0A] @ ''- b'') ''p.md'' =
     ([Block ''11111111-1111-1111-1111-111111111111'' ''a'' 0 [] [] None ''p.md'' None None,
       Block ''0f1e2d3c-0000-4000-8000-000000000000'' ''b'' 0 [] [] None ''p.md'' None None], 1) \<and>
   UUID_REGEX_test ''11111111-1111-1111-1111-111111111111'' \<and>
   UUID_REGEX_test ''0f1e2d3c-0000-4000-8000-000000000000''"
proof -
  let ?text = "''- a'' @ [CHR 0x0A, CHR 0x09] @ ''id:: 11111111-1111-1111-1111-111111111111'' @
      [CHR 0x0A] @ ''- b''"
  let ?bs = "[Block ''11111111-1111-1111-1111-111111111111'' ''a'' 0 [] [] None ''p.md'' None None,
       Block ''0f1e2d3c-0000-4000-8000-000000000000'' ''b'' 0 [] [] None ''p.md'' None None]"
  have g: "\<forall>k. UUID_REGEX_test (example_uuidv4 k)" using example_uuidv4_valid by blast
  have e: "parseBlocks example_uuidv4 0 ?text ''p.md'' = (?bs, 1)" by code_simp
  from parse_uuid_assignment [OF e g]
  have len: "length (flattenBlocks ?bs) = length (parse_lines (split_nl ?text))"
    and all: "\<forall>i<length (parse_lines (split_nl ?text)). UUID_REGEX_test (uuid (flattenBlocks ?bs ! i))"
    by blast+
  have l2: "length (flattenBlocks ?bs) = 2" by (simp add: flattenBlocks_def)
  have n2: "length (parse_lines (split_nl ?text)) = 2" using len l2 by metis
  have "UUID_REGEX_test (uuid (flattenBlocks ?bs ! 0))"
    by (rule all [rule_format]) (use n2 in simp)
  moreover have "UUID_REGEX_test (uuid (flattenBlocks ?bs ! 1))"
    by (rule all [rule_format]) (use n2 in simp)
  moreover have "flattenBlocks ?bs = ?bs" by (simp add: flattenBlocks_def)
  ultimately show ?thesis using g e by simp
qed

text \<open>
  Claim C4 as stated fails: an \<open>id\<close> value written with upper-case digits is not a lower-case
  identifier, yet no identifier is generated (the count of calls stays 0) and the block
  carries the value as written, which does not match the lower-case pattern.
\<close>

theorem parse_uppercase_id_counterexample:
  "parseBlocks example_uuidv4 0
     (''- a'' @ [CHR 0x0A, CHR 0x09] @ ''id:: ABCDEF01-1111-1111-1111-111111111111'') ''p.md'' =
     ([Block ''ABCDEF01-1111-1111-1111-111111111111'' ''a'' 0 [] [] None ''p.md'' None None], 0) \<and>
   \<not> is_lowercase_uuid ''ABCDEF01-1111-1111-1111-111111111111''"
  by code_simp


section \<open>Properties of the search service\<close>

lemma find_sub_bound: "find_sub q s = Some k \<Longrightarrow> k + length q \<le> length s"
proof (induction s arbitrary: k)
  case Nil
  then show ?case by (auto split: if_splits)
next
  case (Cons c cs)
  show ?case
  proof (cases "take (length q) (c # cs) = q")
    case True
    then have "length q \<le> length (c # cs)" by (metis length_take min.cobounded1)
    with True Cons.prems show ?thesis by simp
  next
    case False
    with Cons show ?thesis by auto
  qed
qed

lemma index_from_bound:
  assumes "index_from s q idx = Some j" and "q \<noteq> []"
  shows "idx \<le> j \<and> j + length q \<le> length s"
proof -
  let ?m = "min idx (length s)"
  from assms(1) obtain k where k: "find_sub q (drop ?m s) = Some k" and j: "j = ?m + k"
    by (auto simp: index_from_def)
  from find_sub_bound [OF k] have le: "?m + k + length q \<le> length s" by simp
  with assms(2) have "idx \<le> length s" by (cases "idx \<le> length s") (auto simp: min_def)
  with le j show ?thesis by (simp add: min_def)
qed

text \<open>With a query that is not empty the counting loop ends.\<close>

lemma count_matches_terminates:
  "q \<noteq> [] \<Longrightarrow> \<exists>m. count_matches s q idx mc = Some m"
proof (induction "length s - idx" arbitrary: idx mc rule: less_induct)
  case less
  show ?case
  proof (cases "index_from s q idx")
    case None
    then show ?thesis by (subst count_matches.simps) simp
  next
    case (Some j)
    from index_from_bound [OF Some less.prems] less.prems
    have "length s - (j + length q) < length s - idx" by (cases q) auto
    from less.hyps [OF this less.prems] Some show ?thesis
      by (subst count_matches.simps) simp
  qed
qed

text \<open>
  The bounds below hold for a limit that compares with a length as an integer \<open>k\<close> does:
  every limit but \<open>NaN\<close> and \<open>Infinity\<close>.
\<close>

lemma block_loop_bound:
  assumes "q \<noteq> []" and ge: "\<And>n. length_ge n maxLimit = (k \<le> int n)"
  shows "int (length results) < k \<Longrightarrow>
     \<exists>rs. block_loop ntj cs query' q maxLimit rp flat results = Some rs \<and>
          int (length rs) \<le> k \<and> length results \<le> length rs"
proof (induction flat arbitrary: results)
  case Nil
  then show ?case by simp
next
  case (Cons block flat)
  define bs where "bs = (if cs then content block @ '' '' @ JSON_stringify ntj (properties block)
     else toLowerCase (content block @ '' '' @ JSON_stringify ntj (properties block)))"
  have step: "block_loop ntj cs query' q maxLimit rp (block # flat) results =
      (if str_includes bs q
       then (case count_matches bs q 0 0 of
               None \<Rightarrow> None
             | Some m \<Rightarrow>
                 if int (length (results @ [block_result query' rp block m])) \<ge> k
                 then Some (results @ [block_result query' rp block m])
                 else block_loop ntj cs query' q maxLimit rp flat
                        (results @ [block_result query' rp block m]))
       else block_loop ntj cs query' q maxLimit rp flat results)"
    unfolding bs_def by (simp add: Let_def ge split: option.splits)
  show ?case
  proof (cases "str_includes bs q")
    case False
    with Cons show ?thesis unfolding step by simp
  next
    case True
    from count_matches_terminates [OF assms(1), of bs 0 0]
    obtain m where m: "count_matches bs q 0 0 = Some m" by blast
    let ?rs = "results @ [block_result query' rp block m]"
    show ?thesis
    proof (cases "int (length ?rs) \<ge> k")
      case True
      have "int (length ?rs) \<le> k" using Cons.prems by simp
      with \<open>str_includes bs q\<close> m True show ?thesis unfolding step by simp
    next
      case False
      then have "int (length ?rs) < k" by simp
      from Cons.IH [OF this] obtain rs where
        "block_loop ntj cs query' q maxLimit rp flat ?rs = Some rs"
        "int (length rs) \<le> k" "length ?rs \<le> length rs" by blast
      with \<open>str_includes bs q\<close> m False show ?thesis unfolding step by simp
    qed
  qed
qed

lemma toLowerCase_length [simp]: "length (toLowerCase s) = length s"
  by (simp add: toLowerCase_def)

lemma search_file_bound:
  assumes "query' \<noteq> []" and ge: "\<And>n. length_ge n maxLimit = (k \<le> int n)"
    and "int (length results) < k"
  shows "\<exists>rs n'. search_file g ntj sc sf sbp cs query' maxLimit rp raw (results, n) = Some (rs, n') \<and>
           int (length rs) \<le> k"
proof -
  define body where "body = (case match_frontmatter raw of Some (fm, len) \<Rightarrow> drop len raw | None \<Rightarrow> raw)"
  define st where "st = (if sc \<and> sf \<and> sbp then raw else if sc then body
     else if sf then (case match_frontmatter raw of Some (fm, len) \<Rightarrow> fm | None \<Rightarrow> [])
     else if sbp then body else [])"
  define q where "q = (if cs then query' else toLowerCase query')"
  define index where "index = indexOf (if cs then st else toLowerCase st) q"
  have q: "q \<noteq> []" using assms(1) by (auto simp: q_def toLowerCase_def)
  obtain bs n' where pb: "parseBlocks g n body rp = (bs, n')" by (cases "parseBlocks g n body rp")
  from block_loop_bound [OF q ge assms(3), of ntj cs query' rp "flattenBlocks bs"]
  obtain rs where rs: "block_loop ntj cs query' q maxLimit rp (flattenBlocks bs) results = Some rs"
    "int (length rs) \<le> k" by blast
  have one: "1 \<le> k" using assms(3) by linarith
  have eq: "search_file g ntj sc sf sbp cs query' maxLimit rp raw (results, n) =
      (if index \<noteq> - 1
       then (case parseBlocks g n body rp of
               (blocks', n') \<Rightarrow>
                 (case block_loop ntj cs query' q maxLimit rp (flattenBlocks blocks') results of
                    None \<Rightarrow> None
                  | Some results' \<Rightarrow>
                      if length results' = 0 \<and> index \<noteq> - 1
                      then Some (results' @ [file_result rp st q index], n')
                      else Some (results', n')))
       else Some (results, n))"
    unfolding index_def q_def st_def body_def search_file_def Let_def by simp
  show ?thesis
  proof (cases "index \<noteq> - 1")
    case False
    then show ?thesis using assms(3) unfolding eq by simp
  next
    case True
    then show ?thesis using pb rs one unfolding eq by simp
  qed
qed

lemma search_files_bound:
  assumes "query' \<noteq> []" and ge: "\<And>n. length_ge n maxLimit = (k \<le> int n)"
  shows "int (length (fst state)) \<le> max k 0 \<Longrightarrow>
     \<exists>rs log'. search_files g ntj isAllowed gp sc sf sbp cs query' maxLimit files state log
                  = Some (rs, log') \<and> int (length rs) \<le> max k 0"
proof (induction files arbitrary: state log)
  case Nil
  then show ?case by simp
next
  case (Cons f files)
  obtain fullPath fl where f: "f = (fullPath, fl)" by (cases f)
  obtain results n where state: "state = (results, n)" by (cases state)
  let ?rp = "map (\<lambda>c. if c = CHR 0x5C then CHR ''/'' else c) (drop (length gp + 1) fullPath)"
  show ?case
  proof (cases "isAllowed ?rp")
    case False
    with Cons f show ?thesis by (simp add: Let_def)
  next
    case True
    show ?thesis
    proof (cases "int (length results) \<ge> k")
      case True
      with \<open>isAllowed ?rp\<close> Cons.prems f state show ?thesis by (simp add: Let_def ge)
    next
      case False
      then have lt: "int (length results) < k" by simp
      show ?thesis
      proof (cases fl)
        case None
        with \<open>isAllowed ?rp\<close> False f state Cons.IH [OF Cons.prems] show ?thesis
          by (simp add: Let_def ge)
      next
        case (Some raw)
        from search_file_bound [OF assms(1) ge lt, of g ntj sc sf sbp cs ?rp raw n]
        obtain rs n' where sf: "search_file g ntj sc sf sbp cs query' maxLimit ?rp raw (results, n) = Some (rs, n')"
          "int (length rs) \<le> k" by blast
        then have "int (length (fst (rs, n'))) \<le> max k 0" by simp
        from Cons.IH [OF this] sf(1) \<open>isAllowed ?rp\<close> False f state Some show ?thesis
          by (simp add: Let_def ge)
      qed
    qed
  qed
qed

text \<open>
  The cap holds for every limit that is a number, finite or infinite, and for an absent
  limit: \<open>search\<close> returns, and the list it returns has at most 20 results.
\<close>

lemma search_cap_numeric_limit:
  assumes "limit params \<noteq> Some NaN"
  shows "\<exists>log out. search uuidv4 n number_to_json graphPath isAllowed tree params = Some (log, out) \<and>
     (case out of Inl e \<Rightarrow> True | Inr results \<Rightarrow> length results \<le> 20)"
proof (cases "query params")
  case None
  then show ?thesis by (simp add: search_def)
next
  case (Some q)
  show ?thesis
  proof (cases "q = [] \<or> length (trim q) = 0")
    case True
    with Some show ?thesis by (auto simp: search_def)
  next
    case False
    then have q: "q \<noteq> []" by simp
    define maxLimit where
      "maxLimit = Math_min (case limit params of None \<Rightarrow> Finite 5 | Some l \<Rightarrow> l) (Finite 20)"
    have "\<exists>k. k \<le> 20 \<and> (\<forall>n. length_ge n maxLimit = (k \<le> int n))"
    proof (cases "limit params")
      case None
      then show ?thesis by (intro exI [of _ 5]) (simp add: maxLimit_def)
    next
      case (Some l)
      with assms show ?thesis
      proof (cases l)
        case (Finite x)
        with Some show ?thesis by (intro exI [of _ "min x 20"]) (simp add: maxLimit_def)
      next
        case PosInfinity
        with Some show ?thesis by (intro exI [of _ 20]) (simp add: maxLimit_def)
      next
        case NegInfinity
        with Some show ?thesis by (intro exI [of _ 0]) (simp add: maxLimit_def)
      qed simp
    qed
    then obtain k where k: "k \<le> 20" and ge: "\<And>n. length_ge n maxLimit = (k \<le> int n)" by blast
    obtain files log where fm: "findMarkdownFiles graphPath tree = (files, log)"
      by (cases "findMarkdownFiles graphPath tree")
    have "int (length (fst ([] :: BlockSearchResult list, n))) \<le> max k 0" by simp
    from search_files_bound [OF q ge this]
    obtain rs log' where r: "search_files uuidv4 number_to_json isAllowed graphPath
        (case searchContent params of None \<Rightarrow> True | Some b \<Rightarrow> b)
        (case searchFrontmatter params of None \<Rightarrow> False | Some b \<Rightarrow> b)
        (case searchBlockProperties params of None \<Rightarrow> True | Some b \<Rightarrow> b)
        (case caseSensitive params of None \<Rightarrow> False | Some b \<Rightarrow> b)
        q maxLimit files ([], n) log = Some (rs, log')" "int (length rs) \<le> max k 0"
      by blast
    from k have "max k 0 \<le> 20" by simp
    with r(2) have "length rs \<le> 20" by linarith
    with r(1) Some False fm show ?thesis
      by (simp add: search_def Let_def maxLimit_def)
  qed
qed

text \<open>
  Claim C6. The cap of 20 results does not hold for every limit. A limit that is not a
  number reaches \<open>search\<close> as \<open>NaN\<close>: \<open>Math.min(NaN, 20)\<close> is \<open>NaN\<close>, neither comparison
  \<open>results.length >= maxLimit\<close> is ever true, and the scan runs to the end. On a page of 21
  blocks that hold the query, \<open>search\<close> with the limit \<open>NaN\<close> returns 21 results; with the
  limit 25 it returns 20.
\<close>

theorem search_nan_limit_exceeds_cap:
  "map_option (\<lambda>(log, out). case out of Inl e \<Rightarrow> 0 | Inr results \<Rightarrow> length results)
     (search example_uuidv4 0 (\<lambda>lit. lit) ''/g'' (\<lambda>path. True)
        (Some [File ''a.md'' (Some (join_nl (replicate 21 ''- q'')))])
        \<lparr>query = Some ''q'', limit = Some NaN, searchContent = None, searchFrontmatter = None,
         searchBlockProperties = None, caseSensitive = None\<rparr>) = Some 21 \<and>
   map_option (\<lambda>(log, out). case out of Inl e \<Rightarrow> 0 | Inr results \<Rightarrow> length results)
     (search example_uuidv4 0 (\<lambda>lit. lit) ''/g'' (\<lambda>path. True)
        (Some [File ''a.md'' (Some (join_nl (replicate 21 ''- q'')))])
        \<lparr>query = Some ''q'', limit = Some (Finite 25), searchContent = None, searchFrontmatter = None,
         searchBlockProperties = None, caseSensitive = None\<rparr>) = Some 20"
  by code_simp

text \<open>
  Claim C8. When the query is absent, empty or white space only, \<open>search\<close> throws the
  error for an empty query, returns no results and has made no call to the file system:
  neither a directory listing nor a file read.
\<close>

theorem search_empty_query:
  assumes "case query params of None \<Rightarrow> True | Some q \<Rightarrow> trim q = []"
  shows "search uuidv4 n number_to_json graphPath isAllowed tree params = Some ([], Inl EmptyQuery)"
  using assms by (auto simp: search_def split: option.splits)

theorem search_empty_query_witness:
  "trim ''  '' = [] \<and>
   search example_uuidv4 0 (\<lambda>lit. lit) ''/graph'' (\<lambda>path. True)
     (Some [File ''a.md'' (Some ''- foo'')])
     \<lparr>query = Some ''  '', limit = Some (Finite 3), searchContent = None, searchFrontmatter = None,
      searchBlockProperties = None, caseSensitive = None\<rparr> = Some ([], Inl EmptyQuery)"
proof -
  have t: "trim ''  '' = []" by (simp add: trim_def is_space_def)
  from search_empty_query [of "\<lparr>query = Some ''  '', limit = Some (Finite 3), searchContent = None,
      searchFrontmatter = None, searchBlockProperties = None, caseSensitive = None\<rparr>"] t
  show ?thesis by simp
qed

text \<open>
  Claim C7. The file-level result is pushed only while the list of results of the whole
  scan is empty. With \<open>a.md\<close> holding a block that matches and \<open>b.md\<close> holding the query
  outside any block, the scan returns the block of \<open>a.md\<close> and nothing for \<open>b.md\<close>; scanned
  alone, \<open>b.md\<close> yields its file-level result with line number 1.
\<close>

theorem search_fallback_after_block_results:
  "search example_uuidv4 0 (\<lambda>lit. lit) ''/g'' (\<lambda>path. True)
     (Some [File ''a.md'' (Some ''- foo''), File ''b.md'' (Some ''foo'')])
     \<lparr>query = Some ''foo'', limit = None, searchContent = None, searchFrontmatter = None,
      searchBlockProperties = None, caseSensitive = None\<rparr>
   = Some ([ReadDir ''/g'', ReadFile ''/g/a.md'', ReadFile ''/g/b.md''],
       Inr [\<lparr>res_p = ''a.md'', res_t = ''a'',
             res_uuid = Some ''0f1e2d3c-0000-4000-8000-000000000000'',
             res_ex = ''foo'', res_mc = 1, res_ln = Some 0\<rparr>]) \<and>
   search example_uuidv4 0 (\<lambda>lit. lit) ''/g'' (\<lambda>path. True)
     (Some [File ''b.md'' (Some ''foo'')])
     \<lparr>query = Some ''foo'', limit = None, searchContent = None, searchFrontmatter = None,
      searchBlockProperties = None, caseSensitive = None\<rparr>
   = Some ([ReadDir ''/g'', ReadFile ''/g/b.md''],
       Inr [\<lparr>res_p = ''b.md'', res_t = ''b'', res_uuid = None,
             res_ex = ''foo'', res_mc = 1, res_ln = Some 1\<rparr>])"
  by code_simp


section \<open>Serialization and re-parsing\<close>

text \<open>Trimming on the right.\<close>

definition rtrim :: "string \<Rightarrow> string" where
  "rtrim s = rev (dropWhile is_space (rev s))"

lemma trim_rtrim: "trim s = rtrim (dropWhile is_space s)"
  by (simp add: trim_def rtrim_def)

lemma rtrim_Nil [simp]: "rtrim [] = []"
  by (simp add: rtrim_def)

lemma rtrim_Cons: "rtrim (x # u) = (if rtrim u = [] \<and> is_space x then [] else x # rtrim u)"
  by (auto simp: rtrim_def dropWhile_append)

lemma rtrim_append_nonspace: "\<forall>c\<in>set k. \<not> is_space c \<Longrightarrow> rtrim (k @ u) = k @ rtrim u"
  by (induction k) (auto simp: rtrim_Cons)

lemma rtrim_nonspace: "\<forall>c\<in>set k. \<not> is_space c \<Longrightarrow> rtrim k = k"
  using rtrim_append_nonspace [of k "[]"] by simp

lemma set_rtrim: "set (rtrim s) \<subseteq> set s"
  by (induction s) (auto simp: rtrim_Cons)

lemma set_trim: "set (trim s) \<subseteq> set s"
proof -
  have "set (trim s) \<subseteq> set (dropWhile is_space s)" by (simp add: trim_rtrim set_rtrim)
  also have "\<dots> \<subseteq> set s" by (simp add: set_dropWhileD subsetI)
  finally show ?thesis .
qed

lemma dropWhile_trim [simp]: "dropWhile is_space (trim s) = trim s"
proof (cases "dropWhile is_space s")
  case Nil
  show ?thesis unfolding trim_rtrim Nil by simp
next
  case (Cons x u)
  then have "\<not> is_space x" by (metis hd_dropWhile list.sel(1) list.simps(3))
  then show ?thesis unfolding trim_rtrim Cons by (simp add: rtrim_Cons)
qed

lemma rtrim_idem [simp]: "rtrim (rtrim s) = rtrim s"
  by (simp add: rtrim_def)

lemma trim_idem [simp]: "trim (trim s) = trim s"
proof -
  have "trim (trim s) = rtrim (dropWhile is_space (trim s))" by (simp add: trim_rtrim)
  also have "\<dots> = rtrim (trim s)" by simp
  also have "\<dots> = trim s" by (simp add: trim_rtrim)
  finally show ?thesis .
qed

lemma trim_nonspace: "\<forall>c\<in>set k. \<not> is_space c \<Longrightarrow> trim k = k"
proof -
  assume a: "\<forall>c\<in>set k. \<not> is_space c"
  then have "dropWhile is_space k = k" by (cases k) auto
  then show ?thesis using a by (simp add: trim_rtrim rtrim_nonspace)
qed

lemma has_line_terminator_trim: "\<not> has_line_terminator s \<Longrightarrow> \<not> has_line_terminator (trim s)"
  using set_trim by (auto simp: has_line_terminator_def)

lemma has_line_terminator_simps [simp]:
  "has_line_terminator [] = False"
  "has_line_terminator (c # s) = (is_line_terminator c \<or> has_line_terminator s)"
  "has_line_terminator (s @ t) = (has_line_terminator s \<or> has_line_terminator t)"
  by (auto simp: has_line_terminator_def)

lemma tab_is_space: "is_space (CHR 0x09)"
  by (simp add: is_space_def)

lemma tabs_simps [simp]: "tabs 0 = []" "tabs (Suc n) = CHR 0x09 # tabs n" "length (tabs n) = n"
  by (simp_all add: tabs_def)

lemma dropWhile_tabs: "x \<noteq> CHR 0x09 \<Longrightarrow> dropWhile (\<lambda>c. c = CHR 0x09) (tabs d @ x # r) = x # r"
  by (induction d) auto

lemma takeWhile_tabs: "x \<noteq> CHR 0x09 \<Longrightarrow> takeWhile (\<lambda>c. c = CHR 0x09) (tabs d @ x # r) = tabs d"
  by (induction d) auto

lemma dropWhile_space_tabs: "\<not> is_space x \<Longrightarrow> dropWhile is_space (tabs d @ x # r) = x # r"
  by (induction d) (auto simp: tab_is_space)

text \<open>The two kinds of line the serializer writes.\<close>

definition block_line :: "nat \<Rightarrow> string \<Rightarrow> string" where
  "block_line d c = tabs d @ ''- '' @ trim c"

definition prop_line :: "nat \<Rightarrow> string \<Rightarrow> string \<Rightarrow> string" where
  "prop_line d k vs = tabs (d + 1) @ k @ '':: '' @ vs"

text \<open>A key as \<open>PROPERTY_REGEX\<close> reads it.\<close>

definition key_ok :: "string \<Rightarrow> bool" where
  "key_ok k \<longleftrightarrow> k \<noteq> [] \<and> (\<forall>c\<in>set k. is_key_char c)"

lemma key_char_not_space: "is_key_char c \<Longrightarrow> \<not> is_space c"
  by (auto simp: is_key_char_def is_space_def)

lemma key_char_not_tab: "is_key_char c \<Longrightarrow> c \<noteq> CHR 0x09"
  by (auto simp: is_key_char_def)

lemma match_block_start_block_line:
  assumes "\<not> has_line_terminator (trim c)"
  shows "match_block_start (block_line d c) = Some (d, trim c)"
proof -
  have 1: "dropWhile (\<lambda>c. c = CHR 0x09) (block_line d c) = CHR ''-'' # CHR '' '' # trim c"
    by (simp add: block_line_def dropWhile_tabs)
  have 2: "leading_tabs (block_line d c) = d"
    by (simp add: block_line_def leading_tabs_def takeWhile_tabs)
  have 3: "is_space CHR '' ''" by (simp add: is_space_def)
  show ?thesis using assms by (simp add: match_block_start_def 1 2 3)
qed

lemma trim_block_line:
  "trim (block_line d c) = CHR ''-'' # rtrim (CHR '' '' # trim c)"
proof -
  have "\<not> is_space CHR ''-''" by (simp add: is_space_def)
  then show ?thesis
    by (simp add: block_line_def trim_rtrim [of "tabs d @ _"] dropWhile_space_tabs rtrim_Cons)
qed

lemma block_line_not_property: "PROPERTY_REGEX_match (trim (block_line d c)) = None"
proof -
  have k: "is_key_char CHR ''-''" "\<not> is_key_char CHR '' ''" by (simp_all add: is_key_char_def)
  show ?thesis
  proof (cases "rtrim (CHR '' '' # trim c)")
    case Nil
    then show ?thesis using k by (simp add: trim_block_line PROPERTY_REGEX_match_def)
  next
    case (Cons x u)
    then have "x = CHR '' ''" by (auto simp: rtrim_Cons split: if_splits)
    with Cons show ?thesis using k by (simp add: trim_block_line PROPERTY_REGEX_match_def)
  qed
qed

lemma trim_prop_line:
  assumes "key_ok k"
  shows "trim (prop_line d k vs) = k @ ''::'' @ rtrim (CHR '' '' # vs)"
proof -
  from assms obtain x k' where k: "k = x # k'" and x: "\<not> is_space x"
    by (cases k) (auto simp: key_ok_def key_char_not_space)
  have ns: "\<forall>c\<in>set k. \<not> is_space c" using assms by (auto simp: key_ok_def key_char_not_space)
  have "dropWhile is_space (prop_line d k vs) = k @ '':: '' @ vs"
    using dropWhile_space_tabs [OF x, of "Suc d" "k' @ '':: '' @ vs"] k
    by (simp add: prop_line_def tab_is_space)
  then have "trim (prop_line d k vs) = rtrim (k @ '':: '' @ vs)" by (simp add: trim_rtrim)
  also have "\<dots> = k @ rtrim ('':: '' @ vs)" by (rule rtrim_append_nonspace [OF ns])
  also have "rtrim ('':: '' @ vs) = ''::'' @ rtrim (CHR '' '' # vs)"
    by (simp add: rtrim_Cons is_space_def)
  finally show ?thesis .
qed

lemma prop_line_matches:
  assumes "key_ok k" and "\<not> has_line_terminator vs"
  shows "PROPERTY_REGEX_match (trim (prop_line d k vs))
           = Some (k, dropWhile is_space (rtrim (CHR '' '' # vs)))"
proof -
  have kc: "\<forall>c\<in>set k. is_key_char c" and ne: "k \<noteq> []" using assms(1) by (auto simp: key_ok_def)
  have colon: "\<not> is_key_char CHR '':''" by (simp add: is_key_char_def)
  define w where "w = rtrim (CHR '' '' # vs)"
  have t: "trim (prop_line d k vs) = k @ CHR '':'' # CHR '':'' # w"
    by (simp add: trim_prop_line [OF assms(1)] w_def)
  have tk: "takeWhile is_key_char (k @ CHR '':'' # CHR '':'' # w) = k"
    using kc colon by (simp add: takeWhile_append)
  have dk: "dropWhile is_key_char (k @ CHR '':'' # CHR '':'' # w) = CHR '':'' # CHR '':'' # w"
    using kc colon by (simp add: dropWhile_append)
  have "set (dropWhile is_space w) \<subseteq> set (CHR '' '' # vs)"
    using set_rtrim [of "CHR '' '' # vs"] set_dropWhileD unfolding w_def by fastforce
  then have nl: "\<not> has_line_terminator (dropWhile is_space w)"
    using assms(2) by (auto simp: has_line_terminator_def is_line_terminator_def)
  show ?thesis unfolding t PROPERTY_REGEX_match_def Let_def tk dk
    using ne nl by (simp add: w_def)
qed

lemma leading_tabs_prop_line: "key_ok k \<Longrightarrow> leading_tabs (prop_line d k vs) = d + 1"
proof -
  assume "key_ok k"
  then obtain x k' where k: "k = x # k'" and x: "x \<noteq> CHR 0x09"
    by (cases k) (auto simp: key_ok_def key_char_not_tab)
  show ?thesis using takeWhile_tabs [OF x, of "Suc d" "k' @ '':: '' @ vs"] k
    by (simp add: prop_line_def leading_tabs_def)
qed


lemma uuid_all2: "UUID_REGEX_test u \<Longrightarrow> list_all2 holds (uuid_pattern hex_i) u"
  unfolding UUID_REGEX_test_def by (drule match_pattern_split) simp

lemma uuid_length: "UUID_REGEX_test u \<Longrightarrow> length u = 36"
  unfolding UUID_REGEX_test_def by (drule match_pattern_length) (simp add: uuid_pattern_def)

lemma uuid_chars: "UUID_REGEX_test u \<Longrightarrow> \<forall>c\<in>set u. hex_i c \<or> c = CHR ''-''"
  by (rule all2_pattern_set [OF uuid_all2]) (auto simp: uuid_pattern_def)

lemma uuid_dash: assumes "UUID_REGEX_test u" shows "CHR ''-'' \<in> set u"
proof -
  have "length (uuid_pattern hex_i) = 36" by (simp add: uuid_pattern_def)
  then have "holds (uuid_pattern hex_i ! 8) (u ! 8)"
    using list_all2_nthD [OF uuid_all2 [OF assms], of 8] by simp
  moreover have "uuid_pattern hex_i ! 8 = (=) CHR ''-''"
    by (simp add: uuid_pattern_def nth_append)
  ultimately have "u ! 8 = CHR ''-''" by (simp add: holds_def)
  moreover have "8 < length u" using uuid_length [OF assms] by simp
  ultimately show ?thesis using nth_mem [of 8 u] by simp
qed


lemma hex_i_not_space: "hex_i c \<Longrightarrow> \<not> is_space c \<and> \<not> is_line_terminator c \<and> c \<noteq> CHR ''.''"
  by (auto simp: hex_i_def is_space_def is_line_terminator_def)

lemma uuid_no_space:
  assumes "UUID_REGEX_test u"
  shows "\<forall>c\<in>set u. \<not> is_space c" and "\<not> has_line_terminator u" and "CHR ''.'' \<notin> set u"
proof -
  have d: "\<not> is_space CHR ''-''" "\<not> is_line_terminator CHR ''-''"
    by (simp_all add: is_space_def is_line_terminator_def)
  from uuid_chars [OF assms] hex_i_not_space d
  show "\<forall>c\<in>set u. \<not> is_space c" and "\<not> has_line_terminator u" and "CHR ''.'' \<notin> set u"
    by (auto simp: has_line_terminator_def)
qed

lemma uuid_not_number: assumes "UUID_REGEX_test u" shows "\<not> is_number_literal u"
proof -
  from uuid_length [OF assms] obtain c r where u: "u = c # r" by (cases u) auto
  have c: "c \<noteq> CHR ''-''"
  proof -
    have "length (uuid_pattern hex_i) = 36" by (simp add: uuid_pattern_def)
    then have "holds (uuid_pattern hex_i ! 0) (u ! 0)"
      using list_all2_nthD [OF uuid_all2 [OF assms], of 0] by simp
    moreover have "uuid_pattern hex_i ! 0 = hex_i"
      by (simp add: uuid_pattern_def nth_append)
    ultimately have "hex_i c" using u by (simp add: holds_def)
    then show ?thesis by (auto simp: hex_i_def)
  qed
  have nd: "\<not> is_digit CHR ''-''" by (simp add: is_digit_def)
  from uuid_dash [OF assms] nd have "dropWhile is_digit u \<noteq> []" by auto
  then obtain x fr where rest: "dropWhile is_digit u = x # fr" by (cases "dropWhile is_digit u") auto
  then have "x \<in> set u" by (metis list.set_intros(1) set_dropWhileD)
  with uuid_no_space(3) [OF assms] have "x \<noteq> CHR ''.''" by auto
  with rest c u show ?thesis by (simp add: is_number_literal_def Let_def del: dropWhile.simps)
qed

lemma parsePropertyValue_uuid:
  assumes "UUID_REGEX_test u" shows "parsePropertyValue u = PString u"
proof -
  have t: "trim u = u" by (rule trim_nonspace [OF uuid_no_space(1) [OF assms]])
  have "length u = 36" by (rule uuid_length [OF assms])
  then have "u \<noteq> ''true''" "u \<noteq> ''false''" by auto
  then show ?thesis using uuid_not_number [OF assms] by (simp add: parsePropertyValue_def t)
qed

lemma id_line_matches:
  assumes "UUID_REGEX_test u"
  shows "PROPERTY_REGEX_match (trim (prop_line d ''id'' u)) = Some (''id'', u)"
proof -
  have k: "key_ok ''id''" by (simp add: key_ok_def is_key_char_def)
  have ne: "u \<noteq> []" using uuid_length [OF assms] by auto
  have "rtrim u = u" by (rule rtrim_nonspace [OF uuid_no_space(1) [OF assms]])
  then have "rtrim (CHR '' '' # u) = CHR '' '' # u" using ne by (simp add: rtrim_Cons)
  moreover have "dropWhile is_space (CHR '' '' # u) = u"
    using uuid_no_space(1) [OF assms] ne by (cases u) (auto simp: is_space_def)
  ultimately show ?thesis
    using prop_line_matches [OF k uuid_no_space(2) [OF assms], of d] by simp
qed

lemma map_of_assign: "map_of (assign k v ps) = (map_of ps)(k \<mapsto> v)"
  by (induction ps) (auto simp: fun_eq_iff)

lemma map_of_set_property_other:
  "k \<noteq> ''id'' \<Longrightarrow> map_of (set_property k v ps) ''id'' = map_of ps ''id''"
  by (simp add: set_property_def map_of_assign)

lemma map_of_set_property_id: "map_of (set_property ''id'' v ps) ''id'' = Some v"
  by (simp add: set_property_def map_of_assign)

text \<open>A line at which the property loop stops.\<close>

definition stops :: "string list \<Rightarrow> bool" where
  "stops ls \<longleftrightarrow> (case ls of [] \<Rightarrow> True | l # _ \<Rightarrow> PROPERTY_REGEX_match (trim l) = None)"

lemma take_properties_stops: "stops ls \<Longrightarrow> take_properties d ls ps = (ps, ls)"
  by (cases ls) (auto simp: stops_def Let_def)

lemma take_properties_prop_lines:
  assumes "\<forall>(k, vs)\<in>set kvs. key_ok k \<and> k \<noteq> ''id'' \<and> \<not> has_line_terminator vs" and "stops rest"
  shows "\<exists>ps'. take_properties d (map (\<lambda>(k, vs). prop_line d k vs) kvs @ rest) ps = (ps', rest) \<and>
           map_of ps' ''id'' = map_of ps ''id''"
  using assms(1)
proof (induction kvs arbitrary: ps)
  case Nil
  then show ?case using take_properties_stops [OF assms(2)] by simp
next
  case (Cons kv kvs)
  obtain k vs where kv: "kv = (k, vs)" by (cases kv)
  with Cons.prems have k: "key_ok k" "k \<noteq> ''id''" "\<not> has_line_terminator vs" by auto
  define v where "v = parsePropertyValue (dropWhile is_space (rtrim (CHR '' '' # vs)))"
  have step: "take_properties d (prop_line d k vs # map (\<lambda>(k, vs). prop_line d k vs) kvs @ rest) ps =
      take_properties d (map (\<lambda>(k, vs). prop_line d k vs) kvs @ rest) (set_property k v ps)"
    by (simp add: Let_def leading_tabs_prop_line [OF k(1)] prop_line_matches [OF k(1,3)] v_def)
  from Cons.prems have "\<forall>(k, vs)\<in>set kvs. key_ok k \<and> k \<noteq> ''id'' \<and> \<not> has_line_terminator vs" by simp
  from Cons.IH [OF this, of "set_property k v ps"] obtain ps' where
    "take_properties d (map (\<lambda>(k, vs). prop_line d k vs) kvs @ rest) (set_property k v ps) = (ps', rest)"
    "map_of ps' ''id'' = map_of (set_property k v ps) ''id''" by blast
  with step kv k(2) show ?case by (auto simp: map_of_set_property_other)
qed


text \<open>What serialization and re-parsing need of a block, and of a tree.\<close>

definition clean_block :: "(string \<Rightarrow> string) \<Rightarrow> LogseqBlock \<Rightarrow> bool" where
  "clean_block nts b \<longleftrightarrow>
     trim (content b) = content b \<and> \<not> has_line_terminator (content b) \<and>
     UUID_REGEX_test (uuid b) \<and>
     (\<forall>(k, v)\<in>set (properties b). key_ok k \<and> k \<noteq> ''id'' \<and>
        \<not> has_line_terminator (value_to_string nts v))"

definition clean_tree :: "(string \<Rightarrow> string) \<Rightarrow> LogseqBlock \<Rightarrow> bool" where
  "clean_tree nts b \<longleftrightarrow> (\<forall>x\<in>set (visit b). clean_block nts x)"

text \<open>The pre-order traversal of a tree with the nesting depth of every block.\<close>

fun pre_depth :: "nat \<Rightarrow> LogseqBlock \<Rightarrow> (nat \<times> LogseqBlock) list" where
  "pre_depth d (Block u c l ps cs pu sp m pr) =
     (d, Block u c l ps cs pu sp m pr) # concat (map (pre_depth (d + 1)) cs)"

text \<open>What the round trip compares: level, content and identifier.\<close>

definition item_view :: "item \<Rightarrow> nat \<times> string \<times> string option" where
  "item_view it = (item_level it, item_content it, explicit_id (item_properties it))"

definition block_view :: "nat \<times> LogseqBlock \<Rightarrow> nat \<times> string \<times> string option" where
  "block_view db = (fst db, content (snd db), Some (uuid (snd db)))"

lemma set_entries [simp]: "set (entries ps) = set ps"
  by (auto simp: entries_def)

lemma serialize_visit_eq:
  "u \<noteq> [] \<Longrightarrow>
   serialize_visit nts (Block u c l ps cs pu sp m pr) d =
     block_line d c # prop_line d ''id'' u #
     map (\<lambda>(k, vs). prop_line d k vs) (map (\<lambda>(k, v). (k, value_to_string nts v)) (entries ps)) @
     concat (map (\<lambda>b. serialize_visit nts b (d + 1)) cs)"
  by (simp add: block_line_def prop_line_def Let_def case_prod_unfold comp_def)

lemma stops_serialize_visit: "stops (serialize_visit nts b d @ rest)"
proof (cases b)
  case (Block u c l ps cs pu sp m pr)
  have "\<exists>r. serialize_visit nts b d = block_line d c # r"
    unfolding Block by (simp add: block_line_def Let_def)
  then show ?thesis by (auto simp: stops_def block_line_not_property)
qed

lemma stops_children:
  "stops rest \<Longrightarrow> stops (concat (map (\<lambda>b. serialize_visit nts b d) cs) @ rest)"
  by (cases cs) (simp_all add: stops_serialize_visit)

lemma reparse_children:
  assumes "\<And>x rest. x \<in> set cs \<Longrightarrow> stops rest \<Longrightarrow>
      \<exists>its. parse_lines (serialize_visit nts x d @ rest) = its @ parse_lines rest \<and>
            map item_view its = map block_view (pre_depth d x)"
    and "stops rest"
  shows "\<exists>its. parse_lines (concat (map (\<lambda>b. serialize_visit nts b d) cs) @ rest) = its @ parse_lines rest \<and>
            map item_view its = map block_view (concat (map (pre_depth d) cs))"
  using assms(1)
proof (induction cs)
  case Nil
  then show ?case by simp
next
  case (Cons x xs)
  let ?tail = "concat (map (\<lambda>b. serialize_visit nts b d) xs) @ rest"
  have st: "stops ?tail" by (rule stops_children [OF assms(2)])
  have "x \<in> set (x # xs)" by simp
  from Cons.prems [OF this st] obtain its1 where
    1: "parse_lines (serialize_visit nts x d @ ?tail) = its1 @ parse_lines ?tail"
       "map item_view its1 = map block_view (pre_depth d x)" by auto
  from Cons.IH Cons.prems obtain its2 where
    2: "parse_lines ?tail = its2 @ parse_lines rest"
       "map item_view its2 = map block_view (concat (map (pre_depth d) xs))" by auto
  from 1 2 have "parse_lines (concat (map (\<lambda>b. serialize_visit nts b d) (x # xs)) @ rest)
      = (its1 @ its2) @ parse_lines rest \<and>
      map item_view (its1 @ its2) = map block_view (concat (map (pre_depth d) (x # xs)))"
    by simp
  then show ?case by blast
qed

lemma reparse_block:
  "clean_tree nts b \<Longrightarrow> stops rest \<Longrightarrow>
     \<exists>its. parse_lines (serialize_visit nts b d @ rest) = its @ parse_lines rest \<and>
           map item_view its = map block_view (pre_depth d b)"
proof (induction b arbitrary: d rest)
  case (Block u c l ps cs pu sp m pr)
  let ?b = "Block u c l ps cs pu sp m pr"
  from Block.prems(1) have cb: "clean_block nts ?b" by (simp add: clean_tree_def)
  then have c: "trim c = c" "\<not> has_line_terminator c" and u: "UUID_REGEX_test u"
    and ps: "\<forall>(k, v)\<in>set ps. key_ok k \<and> k \<noteq> ''id'' \<and> \<not> has_line_terminator (value_to_string nts v)"
    by (auto simp: clean_block_def)
  have une: "u \<noteq> []" using uuid_length [OF u] by auto
  have kids: "clean_tree nts x" if "x \<in> set cs" for x
    using Block.prems(1) that by (auto simp: clean_tree_def)
  let ?kvs = "map (\<lambda>(k, v). (k, value_to_string nts v)) (entries ps)"
  let ?kids = "concat (map (\<lambda>b. serialize_visit nts b (d + 1)) cs) @ rest"
  have kvs: "\<forall>(k, vs)\<in>set ?kvs. key_ok k \<and> k \<noteq> ''id'' \<and> \<not> has_line_terminator vs"
    using ps by auto
  have st: "stops ?kids" by (rule stops_children [OF Block.prems(2)])
  have idk: "key_ok ''id''" by (simp add: key_ok_def is_key_char_def)
  from take_properties_prop_lines [OF kvs st, where d = d and ps = "set_property ''id'' (PString u) []"]
  obtain ps' where tp: "take_properties d (map (\<lambda>(k, vs). prop_line d k vs) ?kvs @ ?kids)
        (set_property ''id'' (PString u) []) = (ps', ?kids)"
    and idv: "map_of ps' ''id'' = Some (PString u)"
    by (auto simp: map_of_set_property_id)
  have tp2: "take_properties d (prop_line d ''id'' u # map (\<lambda>(k, vs). prop_line d k vs) ?kvs @ ?kids) []
      = (ps', ?kids)"
    using tp by (simp add: Let_def leading_tabs_prop_line [OF idk] id_line_matches [OF u]
        parsePropertyValue_uuid [OF u])
  have ex: "explicit_id ps' = Some u" using idv u by (simp add: explicit_id_def)
  have first: "parse_lines (serialize_visit nts ?b d @ rest) =
      \<lparr>item_level = d, item_content = c, item_properties = ps'\<rparr> # parse_lines ?kids"
  proof -
    have sv: "serialize_visit nts ?b d @ rest =
        block_line d c # (prop_line d ''id'' u # map (\<lambda>(k, vs). prop_line d k vs) ?kvs @ ?kids)"
      using serialize_visit_eq [OF une, of nts c l ps cs pu sp m pr d]
      by (simp del: serialize_visit.simps)
    have mb: "match_block_start (block_line d c) = Some (d, c)"
      using match_block_start_block_line [of c d] c by simp
    show ?thesis
      by (simp only: sv parse_lines.simps(2) mb tp2 option.case prod.case c(1))
  qed
  have "\<exists>its. parse_lines ?kids = its @ parse_lines rest \<and>
            map item_view its = map block_view (concat (map (pre_depth (d + 1)) cs))"
  proof (rule reparse_children [OF _ Block.prems(2)])
    fix x rest'
    assume "x \<in> set cs" "stops rest'"
    then show "\<exists>its. parse_lines (serialize_visit nts x (d + 1) @ rest') = its @ parse_lines rest' \<and>
            map item_view its = map block_view (pre_depth (d + 1) x)"
      using Block.IH [OF _ kids] by blast
  qed
  then obtain its where its: "parse_lines ?kids = its @ parse_lines rest"
    "map item_view its = map block_view (concat (map (pre_depth (d + 1)) cs))" by blast
  have "parse_lines (serialize_visit nts ?b d @ rest) =
      (\<lparr>item_level = d, item_content = c, item_properties = ps'\<rparr> # its) @ parse_lines rest \<and>
      map item_view (\<lparr>item_level = d, item_content = c, item_properties = ps'\<rparr> # its)
        = map block_view (pre_depth d ?b)"
    using first its ex by (simp add: item_view_def block_view_def)
  then show ?case by blast
qed


lemma split_nl_no_newline: "CHR 0x0A \<notin> set l \<Longrightarrow> split_nl l = [l]"
proof -
  assume a: "CHR 0x0A \<notin> set l"
  then have d: "dropWhile (\<lambda>c. c \<noteq> CHR 0x0A) l = []" "takeWhile (\<lambda>c. c \<noteq> CHR 0x0A) l = l"
    by (auto intro: takeWhile_eq_all_conv [THEN iffD2])
  show ?thesis by (subst split_nl.simps) (simp only: d list.case)
qed

lemma split_nl_line: "CHR 0x0A \<notin> set l \<Longrightarrow> split_nl (l @ CHR 0x0A # r) = l # split_nl r"
proof -
  assume a: "CHR 0x0A \<notin> set l"
  then have d: "dropWhile (\<lambda>c. c \<noteq> CHR 0x0A) (l @ CHR 0x0A # r) = CHR 0x0A # r"
    "takeWhile (\<lambda>c. c \<noteq> CHR 0x0A) (l @ CHR 0x0A # r) = l"
    by (simp_all add: dropWhile_append takeWhile_append)
  show ?thesis by (subst split_nl.simps) (simp only: d list.case)
qed

lemma split_join_nl:
  "ls \<noteq> [] \<Longrightarrow> \<forall>l\<in>set ls. CHR 0x0A \<notin> set l \<Longrightarrow> split_nl (join_nl ls) = ls"
proof (induction ls rule: join_nl.induct)
  case 1
  then show ?case by simp
next
  case (2 l)
  then show ?case by (simp add: split_nl_no_newline)
next
  case (3 l v va)
  then show ?case by (simp add: split_nl_line)
qed

lemma no_lt_no_newline: "\<not> has_line_terminator l \<Longrightarrow> CHR 0x0A \<notin> set l"
  by (auto simp: has_line_terminator_def is_line_terminator_def)

lemma tabs_no_lt [simp]: "\<not> has_line_terminator (tabs d)"
  by (induction d) (simp_all add: is_line_terminator_def)

lemma key_char_not_lt: "is_key_char c \<Longrightarrow> \<not> is_line_terminator c"
  by (auto simp: is_key_char_def is_line_terminator_def)

lemma key_no_lt: "key_ok k \<Longrightarrow> \<not> has_line_terminator k"
  using key_char_not_lt by (auto simp: key_ok_def has_line_terminator_def)

lemma serialize_lines_clean:
  "clean_tree nts b \<Longrightarrow> \<forall>l\<in>set (serialize_visit nts b d). \<not> has_line_terminator l"
proof (induction b arbitrary: d)
  case (Block u c l ps cs pu sp m pr)
  let ?b = "Block u c l ps cs pu sp m pr"
  from Block.prems have cb: "clean_block nts ?b" by (simp add: clean_tree_def)
  then have c: "trim c = c" "\<not> has_line_terminator c" and u: "UUID_REGEX_test u"
    and ps: "\<forall>(k, v)\<in>set ps. key_ok k \<and> k \<noteq> ''id'' \<and> \<not> has_line_terminator (value_to_string nts v)"
    by (auto simp: clean_block_def)
  have une: "u \<noteq> []" using uuid_length [OF u] by auto
  have kids: "clean_tree nts x" if "x \<in> set cs" for x
    using Block.prems that by (auto simp: clean_tree_def)
  have 1: "\<not> has_line_terminator (block_line d c)"
    using c by (simp add: block_line_def is_line_terminator_def)
  have 2: "\<not> has_line_terminator (prop_line d ''id'' u)"
    using uuid_no_space(2) [OF u] by (simp add: prop_line_def is_line_terminator_def)
  have 3: "\<not> has_line_terminator (prop_line d k (value_to_string nts v))" if "(k, v) \<in> set ps" for k v
    using ps that key_no_lt [of k] by (auto simp: prop_line_def is_line_terminator_def)
  have 4: "\<forall>l\<in>set (serialize_visit nts x (d + 1)). \<not> has_line_terminator l" if "x \<in> set cs" for x
    using Block.IH [OF that kids [OF that]] .
  show ?case unfolding serialize_visit_eq [OF une] using 1 2 3 4 by auto
qed

lemma PROPERTY_REGEX_match_ok:
  "PROPERTY_REGEX_match t = Some (k, v) \<Longrightarrow> key_ok k \<and> \<not> has_line_terminator v"
  by (auto simp: PROPERTY_REGEX_match_def Let_def key_ok_def split: if_splits dest: set_takeWhileD)

text \<open>What the parser guarantees of a property value.\<close>

fun value_clean :: "prop_value \<Rightarrow> bool" where
  "value_clean (PString s) = (\<not> has_line_terminator s)"
| "value_clean (PNumber lit) = True"
| "value_clean (PBoolean b) = True"

lemma parsePropertyValue_clean: "\<not> has_line_terminator v \<Longrightarrow> value_clean (parsePropertyValue v)"
  by (simp add: parsePropertyValue_def Let_def has_line_terminator_trim)

lemma set_assign: "set (assign k v ps) \<subseteq> insert (k, v) (set ps)"
  by (induction ps) (auto split: if_splits)

lemma set_set_property: "set (set_property k v ps) \<subseteq> insert (k, v) (set ps)"
  using set_assign by (auto simp: set_property_def)

text \<open>What the parser guarantees of a property object, and of an item.\<close>

definition props_clean :: "props \<Rightarrow> bool" where
  "props_clean ps \<longleftrightarrow> (\<forall>(k, v)\<in>set ps. key_ok k \<and> value_clean v)"

lemma take_properties_clean:
  "take_properties lvl ls ps = (ps', ls') \<Longrightarrow> props_clean ps \<Longrightarrow> props_clean ps'"
proof (induction ls arbitrary: ps)
  case Nil
  then show ?case by simp
next
  case (Cons l ls)
  show ?case
  proof (cases "take_properties lvl (l # ls) ps = (ps, l # ls)")
    case True
    with Cons.prems show ?thesis by simp
  next
    case False
    then obtain k v where m: "PROPERTY_REGEX_match (trim l) = Some (k, v)"
      and r: "take_properties lvl ls (set_property k (parsePropertyValue v) ps) = (ps', ls')"
      using Cons.prems(1) by (auto simp: Let_def split: if_splits option.splits)
    from PROPERTY_REGEX_match_ok [OF m] have "key_ok k" "value_clean (parsePropertyValue v)"
      by (auto intro: parsePropertyValue_clean)
    with Cons.prems(2) set_set_property [of k "parsePropertyValue v" ps]
    have "props_clean (set_property k (parsePropertyValue v) ps)"
      unfolding props_clean_def by blast
    from Cons.IH [OF r this] show ?thesis .
  qed
qed

definition item_clean :: "item \<Rightarrow> bool" where
  "item_clean it \<longleftrightarrow>
     trim (item_content it) = item_content it \<and> \<not> has_line_terminator (item_content it) \<and>
     props_clean (item_properties it)"

lemma match_block_start_clean:
  "match_block_start line = Some (lvl, mc) \<Longrightarrow> \<not> has_line_terminator mc"
  by (auto simp: match_block_start_def split: list.splits if_splits)

lemma parse_lines_clean: "\<forall>it\<in>set (parse_lines ls). item_clean it"
proof (induction ls rule: parse_lines.induct)
  case 1
  then show ?case by (simp add: parse_lines.simps)
next
  case (2 line rest)
  show ?case
  proof (cases "match_block_start line")
    case None
    with 2 show ?thesis by (simp add: parse_lines.simps)
  next
    case (Some a)
    obtain lvl mc where a: "a = (lvl, mc)" by (cases a)
    obtain ps rest' where tp: "take_properties lvl rest [] = (ps, rest')"
      by (cases "take_properties lvl rest []")
    have "props_clean ps" by (rule take_properties_clean [OF tp]) (simp add: props_clean_def)
    moreover have "\<not> has_line_terminator (trim mc)"
      using match_block_start_clean Some a has_line_terminator_trim by blast
    ultimately have "item_clean \<lparr>item_level = lvl, item_content = trim mc, item_properties = ps\<rparr>"
      by (simp add: item_clean_def)
    moreover have "\<forall>it\<in>set (parse_lines rest'). item_clean it"
      using 2(2) [OF Some a [symmetric] tp [symmetric]] by simp
    ultimately show ?thesis using Some a tp by (simp add: parse_lines.simps)
  qed
qed


lemma item_cores_mem:
  "c \<in> set (item_cores g n its) \<Longrightarrow> \<exists>it\<in>set its. \<exists>m. c = item_core (item_uuid g m it) it"
  by (induction its arbitrary: n) auto

lemma item_uuid_valid:
  "\<forall>k. UUID_REGEX_test (g k) \<Longrightarrow> UUID_REGEX_test (item_uuid g m it)"
  by (auto simp: item_uuid_def split: option.splits dest: explicit_id_valid)

lemma value_clean_to_string:
  "\<forall>lit. \<not> has_line_terminator (nts lit) \<Longrightarrow> value_clean v \<Longrightarrow>
     \<not> has_line_terminator (value_to_string nts v)"
  by (cases v) (auto simp: is_line_terminator_def)

lemma parse_clean:
  assumes "parseBlocks g n text sp = (bs, n1)" and "\<forall>k. UUID_REGEX_test (g k)"
    and "\<forall>lit. \<not> has_line_terminator (nts lit)"
  shows "\<forall>x\<in>set (flattenBlocks bs). clean_block nts x"
proof
  fix x assume x: "x \<in> set (flattenBlocks bs)"
  let ?its = "parse_lines (split_nl text)"
  from assms(1) have "map core (flattenBlocks bs) = item_cores g n ?its"
    unfolding parseBlocks_def by (rule buildBlockTree_spec(1))
  with x have "core x \<in> set (item_cores g n ?its)" by (metis image_eqI set_map)
  from item_cores_mem [OF this] obtain it m where it: "it \<in> set ?its"
    and cx: "core x = item_core (item_uuid g m it) it" by blast
  from cx have f: "uuid x = item_uuid g m it" "content x = item_content it"
    "properties x = filter (\<lambda>(k, v). k \<noteq> ''id'') (item_properties it)"
    by (simp_all add: core_def item_core_def)
  from it parse_lines_clean have ic: "item_clean it" by blast
  have pr: "\<forall>(k, v)\<in>set (properties x). key_ok k \<and> k \<noteq> ''id'' \<and>
        \<not> has_line_terminator (value_to_string nts v)"
    using ic value_clean_to_string [OF assms(3)] unfolding f item_clean_def props_clean_def
    by auto
  have "trim (content x) = content x" "\<not> has_line_terminator (content x)"
    using ic by (simp_all add: f(2) item_clean_def)
  moreover have "UUID_REGEX_test (uuid x)"
    using item_uuid_valid [OF assms(2)] by (simp add: f(1))
  ultimately show "clean_block nts x" using pr unfolding clean_block_def by blast
qed

lemma pre_depth_snd: "map snd (pre_depth d b) = visit b"
proof (induction b arbitrary: d)
  case (Block u c l ps cs pu sp m pr)
  have e: "map (map snd \<circ> pre_depth (Suc d)) cs = map visit cs"
    using Block.IH by (induction cs) auto
  have "concat (map (map snd \<circ> pre_depth (Suc d)) cs) = concat (map visit cs)"
    unfolding e ..
  then show ?case by (simp add: map_concat)
qed

lemma pre_depth_forest_snd: "map snd (concat (map (pre_depth d) bs)) = flattenBlocks bs"
  by (induction bs) (simp_all add: pre_depth_snd)

lemma serialize_visit_nonempty: "serialize_visit nts b d \<noteq> []"
  by (cases b) (simp add: Let_def)

lemma reparse_forest:
  assumes "\<forall>b\<in>set bs. clean_tree nts b"
  shows "map item_view (parse_lines (split_nl (serializeBlocks nts bs)))
           = map block_view (concat (map (pre_depth 0) bs))"
proof (cases bs)
  case Nil
  have "split_nl [] = [[]]" by (rule split_nl_no_newline) simp
  moreover have "parse_lines [[]] = []"
    by (simp add: parse_lines.simps match_block_start_def)
  ultimately show ?thesis using Nil by (simp add: serializeBlocks_def)
next
  case (Cons b bs')
  let ?ls = "concat (map (\<lambda>b. serialize_visit nts b 0) bs)"
  have ne: "?ls \<noteq> []" using Cons serialize_visit_nonempty by simp
  have "\<forall>l\<in>set ?ls. \<not> has_line_terminator l"
    using assms serialize_lines_clean by fastforce
  then have "\<forall>l\<in>set ?ls. CHR 0x0A \<notin> set l" using no_lt_no_newline by blast
  from split_join_nl [OF ne this] have sj: "split_nl (serializeBlocks nts bs) = ?ls"
    by (simp add: serializeBlocks_def)
  have "\<exists>its. parse_lines (?ls @ []) = its @ parse_lines [] \<and>
      map item_view its = map block_view (concat (map (pre_depth 0) bs))"
  proof (rule reparse_children)
    show "stops []" by (simp add: stops_def)
  next
    fix x rest assume "x \<in> set bs" "stops rest"
    then show "\<exists>its. parse_lines (serialize_visit nts x 0 @ rest) = its @ parse_lines rest \<and>
        map item_view its = map block_view (pre_depth 0 x)"
      using reparse_block assms by blast
  qed
  then show ?thesis using sj by (auto simp: parse_lines.simps)
qed

lemma item_cores_explicit:
  "\<forall>it\<in>set its. explicit_id (item_properties it) \<noteq> None \<Longrightarrow>
     calls_after n its = n \<and>
     map (\<lambda>c. Some (fst c)) (item_cores g n its) = map (\<lambda>it. explicit_id (item_properties it)) its"
  by (induction its arbitrary: n) (auto simp: item_core_def item_uuid_def item_calls_def)

text \<open>The nesting depths of the blocks of a forest, in pre-order: 0 for a root, one more
  than its parent for a child.\<close>

definition nesting_depths :: "LogseqBlock list \<Rightarrow> nat list" where
  "nesting_depths bs = map fst (concat (map (pre_depth 0) bs))"

text \<open>
  Claim C1, as amended. Let \<open>bs\<close> be a forest returned by \<open>parseBlocks\<close>, with a generator
  that returns identifiers matching the pattern and a number printer that writes no line
  terminator. Parsing \<open>serializeBlocks bs\<close> yields a forest with the same content and the
  same \<open>uuid\<close> per block, in pre-order; the \<open>id\<close> property read for each block from the
  regenerated text is the block's \<open>uuid\<close>, and no identifier is generated. The level of
  each re-parsed block is the nesting depth of the block in \<open>bs\<close>; it is the original
  level when the levels of \<open>bs\<close> are its nesting depths.
\<close>

theorem parse_serialize_roundtrip:
  assumes "\<forall>k. UUID_REGEX_test (uuidv4 k)"
    and "\<forall>lit. \<not> has_line_terminator (number_to_string lit)"
    and "parseBlocks uuidv4 n text sp = (bs, n1)"
    and "parseBlocks uuidv4' m (serializeBlocks number_to_string bs) sp' = (bs', m')"
  shows "map content (flattenBlocks bs') = map content (flattenBlocks bs) \<and>
         map uuid (flattenBlocks bs') = map uuid (flattenBlocks bs) \<and>
         map (\<lambda>it. explicit_id (item_properties it))
             (parse_lines (split_nl (serializeBlocks number_to_string bs)))
           = map (\<lambda>b. Some (uuid b)) (flattenBlocks bs) \<and>
         m' = m \<and>
         map level (flattenBlocks bs') = nesting_depths bs \<and>
         (map level (flattenBlocks bs) = nesting_depths bs \<longrightarrow>
            map level (flattenBlocks bs') = map level (flattenBlocks bs))"
proof -
  let ?its = "parse_lines (split_nl (serializeBlocks number_to_string bs))"
  let ?pd = "concat (map (pre_depth 0) bs)"
  from parse_clean [OF assms(3,1,2)] have cl: "\<forall>x\<in>set (flattenBlocks bs). clean_block number_to_string x" .
  have "\<forall>b\<in>set bs. clean_tree number_to_string b"
    using cl by (auto simp: clean_tree_def in_flattenBlocks)
  from reparse_forest [OF this] have v: "map item_view ?its = map block_view ?pd" .
  have fl: "map snd ?pd = flattenBlocks bs" by (rule pre_depth_forest_snd)
  from v have "map (fst \<circ> item_view) ?its = map (fst \<circ> block_view) ?pd"
    and "map (fst \<circ> snd \<circ> item_view) ?its = map (fst \<circ> snd \<circ> block_view) ?pd"
    and "map (snd \<circ> snd \<circ> item_view) ?its = map (snd \<circ> snd \<circ> block_view) ?pd"
    by (metis map_map)+
  then have lv: "map item_level ?its = nesting_depths bs"
    and ct: "map item_content ?its = map content (map snd ?pd)"
    and ids: "map (\<lambda>it. explicit_id (item_properties it)) ?its = map (\<lambda>b. Some (uuid b)) (map snd ?pd)"
    by (simp_all add: comp_def item_view_def block_view_def nesting_depths_def)
  from ids have ex: "\<forall>it\<in>set ?its. explicit_id (item_properties it) \<noteq> None"
  proof -
    have "\<forall>y\<in>set (map (\<lambda>it. explicit_id (item_properties it)) ?its). y \<noteq> None"
      unfolding ids by auto
    then show ?thesis by auto
  qed
  from assms(4) have c: "map core (flattenBlocks bs') = item_cores uuidv4' m ?its"
    and m': "m' = calls_after m ?its"
    unfolding parseBlocks_def by (rule buildBlockTree_spec(1), rule buildBlockTree_spec(2))
  from item_cores_explicit [OF ex, of m uuidv4'] have ca: "calls_after m ?its = m"
    and ie: "map (\<lambda>c. Some (fst c)) (item_cores uuidv4' m ?its)
        = map (\<lambda>it. explicit_id (item_properties it)) ?its" by auto
  have "map (\<lambda>b. Some (uuid b)) (flattenBlocks bs') = map (\<lambda>c. Some (fst c)) (map core (flattenBlocks bs'))"
    by (simp add: core_def)
  also have "\<dots> = map (\<lambda>b. Some (uuid b)) (flattenBlocks bs)" using c ie ids fl by simp
  finally have "map (Some \<circ> uuid) (flattenBlocks bs') = map (Some \<circ> uuid) (flattenBlocks bs)"
    by (simp add: comp_def)
  then have "map Some (map uuid (flattenBlocks bs')) = map Some (map uuid (flattenBlocks bs))"
    by (simp only: map_map)
  then have 1: "map uuid (flattenBlocks bs') = map uuid (flattenBlocks bs)"
    by (simp only: inj_map_eq_map [OF inj_Some])
  have "map content (flattenBlocks bs') = map (\<lambda>c. fst (snd c)) (map core (flattenBlocks bs'))"
    by (simp add: core_def)
  also have "\<dots> = map content (flattenBlocks bs)"
    using c item_cores_fields(1) [of uuidv4' m ?its] ct fl by simp
  finally have 2: "map content (flattenBlocks bs') = map content (flattenBlocks bs)" .
  have "map level (flattenBlocks bs') = map (\<lambda>c. fst (snd (snd c))) (map core (flattenBlocks bs'))"
    by (simp add: core_def)
  also have "\<dots> = nesting_depths bs"
    using c item_cores_fields(2) [of uuidv4' m ?its] lv by simp
  finally have 3: "map level (flattenBlocks bs') = nesting_depths bs" .
  from ids fl have 4: "map (\<lambda>it. explicit_id (item_properties it)) ?its
      = map (\<lambda>b. Some (uuid b)) (flattenBlocks bs)" by simp
  from 1 2 3 4 m' ca show ?thesis by simp
qed


text \<open>A number printer for the examples.\<close>

definition example_number_to_string :: "string \<Rightarrow> string" where
  "example_number_to_string lit = filter (\<lambda>c. \<not> is_line_terminator c) lit"

lemma example_number_to_string_ok: "\<not> has_line_terminator (example_number_to_string lit)"
  by (simp add: example_number_to_string_def has_line_terminator_def)

theorem parse_serialize_roundtrip_witness:
  "(\<forall>k. UUID_REGEX_test (example_uuidv4 k)) \<and>
   (\<forall>lit. \<not> has_line_terminator (example_number_to_string lit)) \<and>
   parseBlocks example_uuidv4 0 (''- a'' @ [CHR 0x0A, CHR 0x09] @ ''- b'') ''p.md'' =
     ([Block ''0f1e2d3c-0000-4000-8000-000000000000'' ''a'' 0 []
         [Block ''0f1e2d3c-0000-4000-8000-000000000001'' ''b'' 1 [] []
            (Some ''0f1e2d3c-0000-4000-8000-000000000000'') ''p.md'' None None]
         None ''p.md'' None None], 2) \<and>
   parseBlocks example_uuidv4 2
     (serializeBlocks example_number_to_string
        [Block ''0f1e2d3c-0000-4000-8000-000000000000'' ''a'' 0 []
           [Block ''0f1e2d3c-0000-4000-8000-000000000001'' ''b'' 1 [] []
              (Some ''0f1e2d3c-0000-4000-8000-000000000000'') ''p.md'' None None]
           None ''p.md'' None None]) ''p.md'' =
     ([Block ''0f1e2d3c-0000-4000-8000-000000000000'' ''a'' 0 []
         [Block ''0f1e2d3c-0000-4000-8000-000000000001'' ''b'' 1 [] []
            (Some ''0f1e2d3c-0000-4000-8000-000000000000'') ''p.md'' None None]
         None ''p.md'' None None], 2) \<and>
   nesting_depths
     [Block ''0f1e2d3c-0000-4000-8000-000000000000'' ''a'' 0 []
         [Block ''0f1e2d3c-0000-4000-8000-000000000001'' ''b'' 1 [] []
            (Some ''0f1e2d3c-0000-4000-8000-000000000000'') ''p.md'' None None]
         None ''p.md'' None None] = [0, 1]"
proof -
  let ?B = "Block ''0f1e2d3c-0000-4000-8000-000000000001'' ''b'' 1 [] []
            (Some ''0f1e2d3c-0000-4000-8000-000000000000'') ''p.md'' None None"
  let ?A = "Block ''0f1e2d3c-0000-4000-8000-000000000000'' ''a'' 0 [] [?B] None ''p.md'' None None"
  have g: "\<forall>k. UUID_REGEX_test (example_uuidv4 k)" using example_uuidv4_valid by blast
  have s: "\<forall>lit. \<not> has_line_terminator (example_number_to_string lit)"
    using example_number_to_string_ok by blast
  have e1: "parseBlocks example_uuidv4 0 (''- a'' @ [CHR 0x0A, CHR 0x09] @ ''- b'') ''p.md'' = ([?A], 2)"
    by code_simp
  have e2: "parseBlocks example_uuidv4 2 (serializeBlocks example_number_to_string [?A]) ''p.md''
      = ([?A], 2)"
    by code_simp
  from parse_serialize_roundtrip [OF g s e1 e2]
  have "map level (flattenBlocks [?A]) = nesting_depths [?A]" by blast
  then have "nesting_depths [?A] = [0, 1]" by (simp add: flattenBlocks_def)
  with g s e1 e2 show ?thesis by blast
qed

text \<open>
  Claim C1 as stated fails on levels: the serializer indents by nesting depth, not by
  \<open>level\<close>, so the child of level 2 under a root of level 0 comes back with level 1.
\<close>

theorem roundtrip_level_counterexample:
  "parseBlocks example_uuidv4 0 (''- a'' @ [CHR 0x0A, CHR 0x09, CHR 0x09] @ ''- b'') ''p.md'' =
     ([Block ''0f1e2d3c-0000-4000-8000-000000000000'' ''a'' 0 []
         [Block ''0f1e2d3c-0000-4000-8000-000000000001'' ''b'' 2 [] []
            (Some ''0f1e2d3c-0000-4000-8000-000000000000'') ''p.md'' None None]
         None ''p.md'' None None], 2) \<and>
   parseBlocks example_uuidv4 2
     (serializeBlocks example_number_to_string
        [Block ''0f1e2d3c-0000-4000-8000-000000000000'' ''a'' 0 []
           [Block ''0f1e2d3c-0000-4000-8000-000000000001'' ''b'' 2 [] []
              (Some ''0f1e2d3c-0000-4000-8000-000000000000'') ''p.md'' None None]
           None ''p.md'' None None]) ''p.md'' =
     ([Block ''0f1e2d3c-0000-4000-8000-000000000000'' ''a'' 0 []
         [Block ''0f1e2d3c-0000-4000-8000-000000000001'' ''b'' 1 [] []
            (Some ''0f1e2d3c-0000-4000-8000-000000000000'') ''p.md'' None None]
         None ''p.md'' None None], 2)"
  by code_simp


end
